theory Spec2Isabelle
  imports Main "HOL-Library.Sublist"
begin

section \<open>Configuration documents\<close>

text \<open>
  The Go code of \<^verbatim>\<open>config/v3_1_experimental/translate\<close> works on values of the
  struct types \<^verbatim>\<open>old_types.Config\<close>, \<^verbatim>\<open>old_types.Ignition\<close>, \<^verbatim>\<open>types.Config\<close> and
  \<^verbatim>\<open>types.Ignition\<close> through a reflective engine. A document is therefore a tree
  that carries the name of the struct type of every record in it: a scalar, a
  struct with its named fields in declaration order, a sequence, or an optional
  (pointer-like) value that is absent or present.
\<close>

datatype val =
    Scalar string
  | Struct string "(string \<times> val) list"
  | Seq "val list"
  | Absent
  | Present val

text \<open>The shape of a destination type: what the engine walks while it fills \<^verbatim>\<open>ret\<close>.\<close>

datatype ty =
    TScalar
  | TStruct string "(string \<times> ty) list"
  | TSeq ty
  | TOpt ty

text \<open>The zero value of a type: what Go puts in a declared and unassigned variable.\<close>

fun zero :: "ty \<Rightarrow> val" where
  "zero TScalar = Scalar []"
| "zero (TStruct m gs) = Struct m (map (\<lambda>(g, t). (g, zero t)) gs)"
| "zero (TSeq t) = Seq []"
| "zero (TOpt t) = Absent"

text \<open>
  The declarations of package \<^verbatim>\<open>types\<close> are not part of the sources at hand, so
  they are parameters: the canonical version string \<^verbatim>\<open>types.MaxVersion.String()\<close>
  and the declared fields of \<^verbatim>\<open>types.Ignition\<close> and \<^verbatim>\<open>types.Config\<close>.
\<close>

record types_pkg =
  MaxVersion :: string
  Ignition_fields :: "(string \<times> ty) list"
  Config_fields :: "(string \<times> ty) list"

definition types_Ignition :: "types_pkg \<Rightarrow> ty" where
  "types_Ignition P = TStruct ''types.Ignition'' (Ignition_fields P)"

definition types_Config :: "types_pkg \<Rightarrow> ty" where
  "types_Config P = TStruct ''types.Config'' (Config_fields P)"

section \<open>The translator\<close>

text \<open>
  A custom translator is a Go function value registered with
  \<^verbatim>\<open>AddCustomTranslator\<close>. The package registers exactly one, \<^verbatim>\<open>translateIgnition\<close>, of
  type \<^verbatim>\<open>func(old_types.Ignition) types.Ignition\<close>; the function values are named
  by a datatype, and \<open>rule_from\<close> gives the source type a function is registered for.
\<close>

datatype custom = Fn_translateIgnition

fun rule_from :: "custom \<Rightarrow> string" where
  "rule_from Fn_translateIgnition = ''old_types.Ignition''"

text \<open>
  Modelled from the spec: a translator instance of package \<^verbatim>\<open>config/translate\<close>, which
  is not among the sources. By sections 3 and 5 an instance is transient and holds
  nothing but the rules registered on it; a new instance holds none.
\<close>

type_synonym translator = "custom list"

definition NewTranslator :: translator where
  "NewTranslator = []"

text \<open>
  Modelled from the spec: the registration hook of section 6, which adds one
  custom function to the instance it is called on.
\<close>

definition AddCustomTranslator :: "translator \<Rightarrow> custom \<Rightarrow> translator" where
  "AddCustomTranslator tr f = tr @ [f]"

text \<open>
  Modelled from the spec: the lookup of step (1) of section 4.4, the custom rule
  registered for the exact runtime type of the current source subtree. Custom
  functions of this package take structs, so only a record has a rule.
\<close>

fun runtime_type :: "val \<Rightarrow> string option" where
  "runtime_type (Struct m fs) = Some m"
| "runtime_type v = None"

definition getTranslator :: "translator \<Rightarrow> val \<Rightarrow> custom option" where
  "getTranslator tr v =
     (case runtime_type v of
        None \<Rightarrow> None
      | Some m \<Rightarrow> find (\<lambda>f. rule_from f = m) tr)"

text \<open>
  The run of the engine over the elements of a sequence or the fields of a struct,
  in order. Every invocation of a custom translator is recorded, with the source subtree it
  was invoked on, in a trace that is threaded through the run. The trace is an
  observer only: no branch of the code reads it. What is threaded is a parameter of
  \<open>mapM\<close>: the trace, or the trace with the store where translators are objects.
\<close>

type_synonym trace = "(custom \<times> val) list"

fun mapM :: "('a \<Rightarrow> 's \<Rightarrow> ('b \<times> 's) option) \<Rightarrow> 'a list \<Rightarrow> 's \<Rightarrow> ('b list \<times> 's) option" where
  "mapM f [] k = Some ([], k)"
| "mapM f (x # xs) k =
     (case f x k of
        None \<Rightarrow> None
      | Some (y, k') \<Rightarrow>
          (case mapM f xs k' of
             None \<Rightarrow> None
           | Some (ys, k'') \<Rightarrow> Some (y # ys, k'')))"

text \<open>\<^verbatim>\<open>ret.Version = s\<close> on a struct value: the declared field \<^verbatim>\<open>Version\<close> is overwritten.\<close>

fun set_Version :: "string \<Rightarrow> val \<Rightarrow> val" where
  "set_Version s (Struct m fs) =
     Struct m (map (\<lambda>(g, x). if g = ''Version'' then (g, Scalar s) else (g, x)) fs)"
| "set_Version s v = v"

fun get_field :: "string \<Rightarrow> val \<Rightarrow> val option" where
  "get_field g (Struct m fs) = map_of fs g"
| "get_field g v = None"

text \<open>
  Modelled from the spec: the reflective engine \<^verbatim>\<open>translate.NewTranslator().Translate\<close>
  of package \<^verbatim>\<open>config/translate\<close>, which is not among the sources. Section 4.4 of
  the specification gives its algorithm: (1) where a custom rule is registered
  for the runtime type of the current source subtree, the rule is invoked and its
  result is the destination subtree, with no structural recursion; (2) otherwise
  every field that both schemas declare is copied: scalars by value, sequences
  element by element in order, optional values only when present, nested
  composites by (1) and (2) again; (3) a field of the source alone is dropped and
  a field of the destination alone keeps its zero value. Where the kinds of the
  source value and of the destination type differ the specification gives neither
  a copy nor a failure (``no runtime error path''), and the slot keeps its zero
  value.

  \<open>translateIgnition\<close> is the function of the sources:
  \<^verbatim>\<open>
  func translateIgnition(old old_types.Ignition) (ret types.Ignition) {
      // use a new translator so we don't recurse infintitely
      translate.NewTranslator().Translate(&old, &ret)
      ret.Version = types.MaxVersion.String()
      return
  }
  \<close>
  The engine calls it through the registered function value and it calls the
  engine, so the two are defined together. The first argument is fuel: every call
  of either function takes one unit, and \<open>None\<close> is a run whose nesting of calls
  exceeds the fuel. A run that recurses for ever is \<open>None\<close> for every amount of
  fuel.
\<close>

fun Translator_Translate ::
    "nat \<Rightarrow> types_pkg \<Rightarrow> translator \<Rightarrow> ty \<Rightarrow> val \<Rightarrow> trace \<Rightarrow> (val \<times> trace) option"
  and translateIgnition :: "nat \<Rightarrow> types_pkg \<Rightarrow> val \<Rightarrow> trace \<Rightarrow> (val \<times> trace) option"
where
  "Translator_Translate 0 P tr t v k = None"
| "Translator_Translate (Suc n) P tr t v k =
     (case getTranslator tr v of
        Some Fn_translateIgnition \<Rightarrow> translateIgnition n P v (k @ [(Fn_translateIgnition, v)])
      | None \<Rightarrow>
          (case (t, v) of
             (TScalar, Scalar s) \<Rightarrow> Some (Scalar s, k)
           | (TStruct m gs, Struct m' fs) \<Rightarrow>
               (case mapM (\<lambda>(g, t') k'.
                             (case map_of fs g of
                                None \<Rightarrow> Some ((g, zero t'), k')
                              | Some x \<Rightarrow>
                                  (case Translator_Translate n P tr t' x k' of
                                     None \<Rightarrow> None
                                   | Some (y, k'') \<Rightarrow> Some ((g, y), k'')))) gs k of
                  None \<Rightarrow> None
                | Some (hs, k') \<Rightarrow> Some (Struct m hs, k'))
           | (TSeq t', Seq xs) \<Rightarrow>
               (case mapM (Translator_Translate n P tr t') xs k of
                  None \<Rightarrow> None
                | Some (ys, k') \<Rightarrow> Some (Seq ys, k'))
           | (TOpt t', Absent) \<Rightarrow> Some (Absent, k)
           | (TOpt t', Present x) \<Rightarrow>
               (case Translator_Translate n P tr t' x k of
                  None \<Rightarrow> None
                | Some (y, k') \<Rightarrow> Some (Present y, k'))
           | _ \<Rightarrow> Some (zero t, k)))"
| "translateIgnition 0 P old k = None"
| "translateIgnition (Suc n) P old k =
     (case Translator_Translate n P NewTranslator (types_Ignition P) old k of
        None \<Rightarrow> None
      | Some (ret, k') \<Rightarrow> Some (set_Version (MaxVersion P) ret, k'))"

text \<open>
  \<^verbatim>\<open>
  func Translate(old old_types.Config) (ret types.Config) {
      tr := translate.NewTranslator()
      tr.AddCustomTranslator(translateIgnition)
      tr.Translate(&old, &ret)
      return
  }
  \<close>
\<close>

definition Translate :: "nat \<Rightarrow> types_pkg \<Rightarrow> val \<Rightarrow> (val \<times> trace) option" where
  "Translate n P old =
     (let tr = NewTranslator;
          tr = AddCustomTranslator tr Fn_translateIgnition
      in Translator_Translate n P tr (types_Config P) old [])"

section \<open>Translators as objects\<close>

text \<open>
  In Go \<^verbatim>\<open>translate.NewTranslator()\<close> makes a new translator object at every call, and
  \<^verbatim>\<open>AddCustomTranslator\<close> changes the object it is called on. The definitions above
  take a translator as the value it holds. To state what a call of \<open>Translate\<close> reads
  and what it leaves behind, the definitions of this section put the translator
  objects in a store: the list of all the instances the program has made so far,
  an instance being named by its position. A call starts from any store.

  Modelled from the spec: sections 3 and 5 (a rule is registered on a transient
  instance; a fresh instance is allocated for every top-level \<open>Translate\<close> and inside
  the override; no instance and no rule of it is shared or reused across calls).
\<close>

type_synonym store = "translator list"

text \<open>
  Modelled from the spec: \<^verbatim>\<open>translate.NewTranslator()\<close> on a store: a new instance that
  holds no rule is added, and its name is returned.
\<close>

definition NewTranslator_obj :: "store \<Rightarrow> nat \<times> store" where
  "NewTranslator_obj s = (length s, s @ [NewTranslator])"

text \<open>
  Modelled from the spec: \<^verbatim>\<open>tr.AddCustomTranslator(f)\<close> on a store: the instance named
  \<open>a\<close> gets the rule, every other instance stays as it is.
\<close>

definition AddCustomTranslator_obj :: "nat \<Rightarrow> custom \<Rightarrow> store \<Rightarrow> store" where
  "AddCustomTranslator_obj a f s =
     (if a < length s then s[a := AddCustomTranslator (s ! a) f] else s)"

text \<open>
  Modelled from the spec: the rules that the instance named \<open>a\<close> holds. Go has no
  reference to an instance that was never made; a name out of the store holds no
  rule.
\<close>

definition rules_of :: "store \<Rightarrow> nat \<Rightarrow> translator" where
  "rules_of s a = (if a < length s then s ! a else [])"

text \<open>
  Modelled from the spec: the engine of section 4.4 as above, on the instance named
  \<open>a\<close> of the store; the store and the trace are threaded through the run.
  \<open>translateIgnition_obj\<close> is \<^verbatim>\<open>translateIgnition\<close> of the sources with the call
  \<^verbatim>\<open>translate.NewTranslator()\<close> as an allocation in the store.
\<close>

fun Translator_Translate_obj ::
    "nat \<Rightarrow> types_pkg \<Rightarrow> nat \<Rightarrow> ty \<Rightarrow> val \<Rightarrow> store \<times> trace \<Rightarrow> (val \<times> store \<times> trace) option"
  and translateIgnition_obj ::
    "nat \<Rightarrow> types_pkg \<Rightarrow> val \<Rightarrow> store \<times> trace \<Rightarrow> (val \<times> store \<times> trace) option"
where
  "Translator_Translate_obj 0 P a t v st = None"
| "Translator_Translate_obj (Suc n) P a t v st =
     (case getTranslator (rules_of (fst st) a) v of
        Some Fn_translateIgnition \<Rightarrow>
          translateIgnition_obj n P v (fst st, snd st @ [(Fn_translateIgnition, v)])
      | None \<Rightarrow>
          (case (t, v) of
             (TScalar, Scalar s) \<Rightarrow> Some (Scalar s, st)
           | (TStruct m gs, Struct m' fs) \<Rightarrow>
               (case mapM (\<lambda>(g, t') st'.
                             (case map_of fs g of
                                None \<Rightarrow> Some ((g, zero t'), st')
                              | Some x \<Rightarrow>
                                  (case Translator_Translate_obj n P a t' x st' of
                                     None \<Rightarrow> None
                                   | Some (y, st'') \<Rightarrow> Some ((g, y), st'')))) gs st of
                  None \<Rightarrow> None
                | Some (hs, st') \<Rightarrow> Some (Struct m hs, st'))
           | (TSeq t', Seq xs) \<Rightarrow>
               (case mapM (Translator_Translate_obj n P a t') xs st of
                  None \<Rightarrow> None
                | Some (ys, st') \<Rightarrow> Some (Seq ys, st'))
           | (TOpt t', Absent) \<Rightarrow> Some (Absent, st)
           | (TOpt t', Present x) \<Rightarrow>
               (case Translator_Translate_obj n P a t' x st of
                  None \<Rightarrow> None
                | Some (y, st') \<Rightarrow> Some (Present y, st'))
           | _ \<Rightarrow> Some (zero t, st)))"
| "translateIgnition_obj 0 P old st = None"
| "translateIgnition_obj (Suc n) P old st =
     (let (tr, s) = NewTranslator_obj (fst st)
      in case Translator_Translate_obj n P tr (types_Ignition P) old (s, snd st) of
           None \<Rightarrow> None
         | Some (ret, st') \<Rightarrow> Some (set_Version (MaxVersion P) ret, st'))"

text \<open>
  \<^verbatim>\<open>Translate\<close> of the sources on a store: \<^verbatim>\<open>tr := translate.NewTranslator()\<close> allocates,
  \<^verbatim>\<open>tr.AddCustomTranslator(translateIgnition)\<close> registers on the new instance, and
  \<^verbatim>\<open>tr.Translate(&old, &ret)\<close> runs the engine on it.
\<close>

definition Translate_obj :: "nat \<Rightarrow> types_pkg \<Rightarrow> store \<Rightarrow> val \<Rightarrow> (val \<times> store \<times> trace) option" where
  "Translate_obj n P s old =
     (let (tr, s) = NewTranslator_obj s;
          s = AddCustomTranslator_obj tr Fn_translateIgnition s
      in Translator_Translate_obj n P tr (types_Config P) old (s, []))"

text \<open>
  \<open>grows d s k p q\<close>: the run \<open>q\<close> from the store \<open>s\<close> and the trace \<open>k\<close> does what
  the run \<open>p\<close> on translator values does from \<open>k\<close>, and it leaves behind the store
  \<open>s\<close> followed by new instances that hold no rule: \<open>d\<close> of them and one more for
  every invocation that the trace has gained.
\<close>

definition grows :: "nat \<Rightarrow> store \<Rightarrow> trace \<Rightarrow> ('b \<times> trace) option \<Rightarrow> ('b \<times> store \<times> trace) option \<Rightarrow> bool" where
  "grows d s k p q =
     (case p of
        None \<Rightarrow> q = None
      | Some (y, k') \<Rightarrow>
          length k \<le> length k' \<and>
          q = Some (y, s @ replicate (d + (length k' - length k)) NewTranslator, k'))"

section \<open>Measures and well-formed source documents\<close>

text \<open>
  The height of a destination type bounds the nesting of calls of a structural
  copy into it.
\<close>

fun height :: "ty \<Rightarrow> nat" where
  "height TScalar = 1"
| "height (TStruct m gs) = Suc (fold max (map (\<lambda>(g, t). height t) gs) 0)"
| "height (TSeq t) = Suc (height t)"
| "height (TOpt t) = Suc (height t)"

text \<open>\<open>no_section c v\<close>: no record anywhere in \<open>v\<close> has the struct type \<open>c\<close>.\<close>

fun no_section :: "string \<Rightarrow> val \<Rightarrow> bool" where
  "no_section c (Scalar s) = True"
| "no_section c (Struct m fs) = (m \<noteq> c \<and> list_all (\<lambda>(g, x). no_section c x) fs)"
| "no_section c (Seq xs) = list_all (no_section c) xs"
| "no_section c Absent = True"
| "no_section c (Present x) = no_section c x"

text \<open>
  A value of the Go type \<^verbatim>\<open>old_types.Config\<close> whose field \<open>f\<close> holds the
  \<^verbatim>\<open>old_types.Ignition\<close> section: the struct types of Go fix that this is the only
  record of that type in the document.
\<close>

fun source_Config :: "string \<Rightarrow> val \<Rightarrow> bool" where
  "source_Config f (Struct m fs) =
     (m = ''old_types.Config'' \<and>
      (case map_of fs f of
         None \<Rightarrow> False
       | Some ign \<Rightarrow> runtime_type ign = Some ''old_types.Ignition'') \<and>
      list_all (\<lambda>(g, x). g = f \<or> no_section ''old_types.Ignition'' x) fs)"
| "source_Config f v = False"

text \<open>No custom translator of \<open>tr\<close> is registered for a record inside \<open>v\<close>.\<close>

definition quiet :: "translator \<Rightarrow> val \<Rightarrow> bool" where
  "quiet tr v = list_all (\<lambda>f. no_section (rule_from f) v) tr"

text \<open>Fuel that suffices for \<open>Translate\<close>, whatever the source document.\<close>

definition fuel_needed :: "types_pkg \<Rightarrow> nat" where
  "fuel_needed P = height (types_Config P) + height (types_Ignition P) + 3"

section \<open>An example schema and document\<close>

definition example_types :: types_pkg where
  "example_types =
     \<lparr>MaxVersion = ''3.1.0-experimental'',
      Ignition_fields =
        [(''Config'', TStruct ''types.IgnitionConfig'' [(''Merge'', TSeq TScalar)]),
         (''Version'', TScalar),
         (''Proxy'', TOpt TScalar)],
      Config_fields =
        [(''Ignition'', TStruct ''types.Ignition''
            [(''Config'', TStruct ''types.IgnitionConfig'' [(''Merge'', TSeq TScalar)]),
             (''Version'', TScalar),
             (''Proxy'', TOpt TScalar)]),
         (''Storage'', TStruct ''types.Storage'' [(''Files'', TSeq TScalar)])]\<rparr>"

definition example_Ignition :: val where
  "example_Ignition =
     Struct ''old_types.Ignition''
       [(''Config'', Struct ''old_types.IgnitionConfig'' [(''Merge'', Seq [Scalar ''a'', Scalar ''b''])]),
        (''Version'', Scalar ''3.0.0'')]"

definition example_old :: val where
  "example_old =
     Struct ''old_types.Config''
       [(''Ignition'', example_Ignition),
        (''Storage'', Struct ''old_types.Storage'' [(''Files'', Seq [Scalar ''/etc/x''])])]"

definition example_new :: val where
  "example_new =
     Struct ''types.Config''
       [(''Ignition'', Struct ''types.Ignition''
           [(''Config'', Struct ''types.IgnitionConfig'' [(''Merge'', Seq [Scalar ''a'', Scalar ''b''])]),
            (''Version'', Scalar ''3.1.0-experimental''),
            (''Proxy'', Absent)]),
        (''Storage'', Struct ''types.Storage'' [(''Files'', Seq [Scalar ''/etc/x''])])]"

section \<open>Fetching an inline-data URL\<close>

text \<open>
  The test \<^verbatim>\<open>TestAssertValid\<close> of package \<^verbatim>\<open>resource\<close> calls \<^verbatim>\<open>fetchFromDataURL\<close> with a
  \<^verbatim>\<open>url.URL\<close>, a \<^verbatim>\<open>bytes.Buffer\<close> and \<^verbatim>\<open>FetchOptions\<close>, and compares the error with
  \<^verbatim>\<open>util.ErrHashMismatch\<close> and \<^verbatim>\<open>configErrors.ErrCompressionInvalid\<close>. The function itself
  and what it calls are not among the sources; they are modelled from the
  specification. Byte strings are lists of \<open>char\<close>, which is a byte in HOL.
\<close>

text \<open>
  The errors of the fetch pipeline (section 7 of the specification). The fields of
  the hash mismatch are those of the test: \<^verbatim>\<open>Calculated\<close> and \<^verbatim>\<open>Expected\<close>.
\<close>

datatype fetch_error =
    ErrHashMismatch (Calculated: string) (Expected: string)
  | ErrCompressionInvalid
  | ErrDecode
  | ErrDecompress

text \<open>
  The fields of \<^verbatim>\<open>url.URL\<close> and of \<^verbatim>\<open>FetchOptions\<close> that the test sets. A digest
  algorithm instance is the function from the bytes written to the sum.
\<close>

record URL =
  Scheme :: string
  Opaque :: string

record FetchOptions =
  Hash :: "(string \<Rightarrow> string) option"
  ExpectedSum :: "string option"
  Compression :: string

text \<open>
  Modelled from the spec: the digits of the lowercase hexadecimal encoding of raw
  bytes (\<^verbatim>\<open>hex.EncodeToString\<close>), in which section 4.3 compares digests and section 6
  reports them.
\<close>

definition hexdigit :: "nat \<Rightarrow> char" where
  "hexdigit n = ''0123456789abcdef'' ! n"

text \<open>
  Modelled from the spec: the hexadecimal encoding of a byte string, two lowercase
  digits for every byte, the high half first.
\<close>

fun hex :: "string \<Rightarrow> string" where
  "hex [] = []"
| "hex (c # cs) = hexdigit (of_char c div 16) # hexdigit (of_char c mod 16) # hex cs"

text \<open>
  Modelled from the spec: the Digest Verifier of section 4.3, whose code is not
  among the sources. \<^verbatim>\<open>Verify(bytes, digestInstance?, expectedHex?)\<close>: when either
  the digest instance or the expected digest is absent the check is skipped;
  otherwise the digest of all the bytes is hex-encoded and compared with
  \<open>expectedHex\<close>, and a mismatch is the hash-mismatch error that carries both
  strings.
\<close>

definition Verify :: "(string \<Rightarrow> string) option \<Rightarrow> string option \<Rightarrow> string \<Rightarrow> fetch_error + unit" where
  "Verify digestInstance expectedHex bytes =
     (case (digestInstance, expectedHex) of
        (Some h, Some e) \<Rightarrow>
          (let calculated = hex (h bytes)
           in if calculated = e then Inr () else Inl (ErrHashMismatch calculated e))
      | _ \<Rightarrow> Inr ())"

text \<open>
  Modelled from the spec: the Decompression Stage of section 4.2, whose code is not
  among the sources. The empty codec name is the identity, \<^verbatim>\<open>gzip\<close> is gzip
  decompression, any other name is the invalid-compression error. The gzip codec
  is a parameter.
\<close>

definition Decompress :: "(string \<Rightarrow> fetch_error + string) \<Rightarrow> string \<Rightarrow> string \<Rightarrow> fetch_error + string" where
  "Decompress gunzip bytes codecName =
     (if codecName = [] then Inr bytes
      else if codecName = ''gzip'' then gunzip bytes
      else Inl ErrCompressionInvalid)"

text \<open>
  Modelled from the spec: the inline-data decode of sections 4.1 and 6, whose code
  is not among the sources. The opaque part splits at the first comma; what
  stands before it is the media-type and parameter list, what stands after it is
  the payload.
\<close>

fun split_comma :: "string \<Rightarrow> (string \<times> string) option" where
  "split_comma [] = None"
| "split_comma (c # cs) =
     (if c = CHR '','' then Some ([], cs)
      else (case split_comma cs of
              None \<Rightarrow> None
            | Some (params, payload) \<Rightarrow> Some (c # params, payload)))"

text \<open>The position of the first occurrence of an element in a list.\<close>

fun index_of :: "'a \<Rightarrow> 'a list \<Rightarrow> nat option" where
  "index_of x [] = None"
| "index_of x (y # ys) = (if x = y then Some 0 else map_option Suc (index_of x ys))"

text \<open>
  Modelled from the spec: the alphabet of standard base64 (RFC 4648:
  \<^verbatim>\<open>A-Z a-z 0-9 + /\<close>, four characters for three bytes, \<^verbatim>\<open>=\<close> padding in the last
  group). A malformed payload is the decode error of section 7.
\<close>

definition b64_value :: "char \<Rightarrow> nat option" where
  "b64_value c =
     index_of c ''ABCDEFGHIJKLMNOPQRSTUVWXYZabcdefghijklmnopqrstuvwxyz0123456789+/''"

text \<open>
  Modelled from the spec: standard base64 decoding, one group of four characters
  at a time; only the last group may be padded.
\<close>

fun b64_decode :: "string \<Rightarrow> fetch_error + string" where
  "b64_decode [] = Inr []"
| "b64_decode (a # b # c # d # rest) =
     (case (b64_value a, b64_value b) of
        (Some x, Some y) \<Rightarrow>
          if c = CHR ''='' \<and> d = CHR ''='' \<and> rest = [] then
            Inr [char_of (4 * x + y div 16)]
          else (case b64_value c of
                  None \<Rightarrow> Inl ErrDecode
                | Some z \<Rightarrow>
                    if d = CHR ''='' \<and> rest = [] then
                      Inr [char_of (4 * x + y div 16), char_of (16 * (y mod 16) + z div 4)]
                    else (case b64_value d of
                            None \<Rightarrow> Inl ErrDecode
                          | Some w \<Rightarrow>
                              (case b64_decode rest of
                                 Inl e \<Rightarrow> Inl e
                               | Inr bs \<Rightarrow>
                                   Inr (char_of (4 * x + y div 16) #
                                        char_of (16 * (y mod 16) + z div 4) #
                                        char_of (64 * (z mod 4) + w) # bs))))
      | _ \<Rightarrow> Inl ErrDecode)"
| "b64_decode cs = Inl ErrDecode"

text \<open>
  Modelled from the spec: the hexadecimal digits of percent-decoding of the
  payload as literal text: \<^verbatim>\<open>%\<close> and two hexadecimal digits stand for one byte, every
  other character for itself. A malformed escape is the decode error of section 7.
\<close>

definition hex_value :: "char \<Rightarrow> nat option" where
  "hex_value c =
     (case index_of c ''0123456789abcdef'' of
        Some n \<Rightarrow> Some n
      | None \<Rightarrow> map_option (\<lambda>n. n + 10) (index_of c ''ABCDEF''))"

text \<open>
  Modelled from the spec: percent-decoding, one character or one escape at a time.
\<close>

fun pct_decode :: "string \<Rightarrow> fetch_error + string" where
  "pct_decode [] = Inr []"
| "pct_decode (c # cs) =
     (if c = CHR ''%'' then
        (case cs of
           a # b # rest \<Rightarrow>
             (case (hex_value a, hex_value b) of
                (Some x, Some y) \<Rightarrow>
                  (case pct_decode rest of
                     Inl e \<Rightarrow> Inl e
                   | Inr bs \<Rightarrow> Inr (char_of (16 * x + y) # bs))
              | _ \<Rightarrow> Inl ErrDecode)
         | _ \<Rightarrow> Inl ErrDecode)
      else (case pct_decode cs of
              Inl e \<Rightarrow> Inl e
            | Inr bs \<Rightarrow> Inr (c # bs)))"

text \<open>
  Modelled from the spec: a parameter list that ends with \<^verbatim>\<open>;base64\<close> selects
  base64 decoding, any other selects percent-decoding. An opaque part without a
  comma has no payload; it is taken as malformed.
\<close>

definition dataurl_decode :: "string \<Rightarrow> fetch_error + string" where
  "dataurl_decode opaque =
     (case split_comma opaque of
        None \<Rightarrow> Inl ErrDecode
      | Some (params, payload) \<Rightarrow>
          if suffix '';base64'' params then b64_decode payload else pct_decode payload)"

text \<open>
  Modelled from the spec: \<^verbatim>\<open>fetchFromDataURL\<close>, whose code is not among the sources.
  Sections 2 and 4.1: the decoded payload is the byte stream before decompression;
  it goes through the Decompression Stage and the Digest Verifier, and the final
  bytes are appended to the sink of the caller. Section 3: a failure delivers no
  byte and returns the error. The expected digest of \<^verbatim>\<open>FetchOptions\<close> is raw bytes and is
  compared in its hexadecimal encoding.
\<close>

definition fetchFromDataURL ::
    "(string \<Rightarrow> fetch_error + string) \<Rightarrow> URL \<Rightarrow> string \<Rightarrow> FetchOptions \<Rightarrow> fetch_error option \<times> string" where
  "fetchFromDataURL gunzip u dest opts =
     (case dataurl_decode (Opaque u) of
        Inl e \<Rightarrow> (Some e, dest)
      | Inr raw \<Rightarrow>
          (case Decompress gunzip raw (Compression opts) of
             Inl e \<Rightarrow> (Some e, dest)
           | Inr plain \<Rightarrow>
               (case Verify (Hash opts) (map_option hex (ExpectedSum opts)) plain of
                  Inl e \<Rightarrow> (Some e, dest)
                | Inr _ \<Rightarrow> (None, dest @ plain))))"

text \<open>
  From the test of the sources: the expected content, and Go's
  \<^verbatim>\<open>strings.TrimSuffix\<close>, with which the test removes one trailing newline from the
  content of the sink before it compares:
  \<^verbatim>\<open>dest := strings.TrimSuffix(test.in.dest.String(), "\n")\<close>.
\<close>

definition expectedFileContent :: string where
  "expectedFileContent = ''# This file'' @ [CHR 0x0A, CHR 0x0A] @ ''SELINUX=permissive''"

definition TrimSuffix :: "string \<Rightarrow> string \<Rightarrow> string" where
  "TrimSuffix s suf = (if suffix suf s then take (length s - length suf) s else s)"

text \<open>
  An instance for the digest parameter: Adler-32 (RFC 1950), which Go's
  \<^verbatim>\<open>hash/adler32\<close> offers as a \<^verbatim>\<open>hash.Hash\<close>. The sum is four bytes, big-endian.
\<close>

definition adler32 :: "string \<Rightarrow> string" where
  "adler32 bytes =
     (let (s1, s2) = fold (\<lambda>c (s1, s2). let s1' = (s1 + of_char c) mod 65521
                                        in (s1', (s2 + s1') mod 65521)) bytes (1::int, 0::int)
      in [char_of (s2 div 256), char_of s2, char_of (s1 div 256), char_of s1])"

section \<open>Properties of the translator\<close>

subsection \<open>Sequencing\<close>

lemma mapM_mono:
  assumes "\<And>x k r. x \<in> set xs \<Longrightarrow> f x k = Some r \<Longrightarrow> f' x k = Some r"
    and "mapM f xs k = Some r"
  shows "mapM f' xs k = Some r"
  using assms
proof (induction xs arbitrary: k r)
  case Nil
  then show ?case by simp
next
  case (Cons x xs)
  from Cons.prems(2) obtain y k1 where fx: "f x k = Some (y, k1)"
    by (auto split: option.splits)
  with Cons.prems(2) obtain ys k2 where rest: "mapM f xs k1 = Some (ys, k2)" and r: "r = (y # ys, k2)"
    by (auto split: option.splits)
  have "f' x k = Some (y, k1)" using Cons.prems(1) fx by simp
  moreover have "mapM f' xs k1 = Some (ys, k2)"
    using Cons.IH [OF _ rest] Cons.prems(1) by simp
  ultimately show ?case using r by simp
qed

lemma mapM_quiet:
  assumes "\<And>x k. x \<in> set xs \<Longrightarrow> \<exists>y. f x k = Some (y, k)"
  shows "\<exists>ys. mapM f xs k = Some (ys, k)"
  using assms
proof (induction xs)
  case Nil
  then show ?case by simp
next
  case (Cons x xs)
  from Cons.prems [of x k] obtain y where "f x k = Some (y, k)" by auto
  moreover from Cons.IH Cons.prems obtain ys where "mapM f xs k = Some (ys, k)" by auto
  ultimately show ?case by simp
qed

lemma mapM_append:
  "mapM f (xs @ ys) k =
     (case mapM f xs k of
        None \<Rightarrow> None
      | Some (as, k') \<Rightarrow>
          (case mapM f ys k' of
             None \<Rightarrow> None
           | Some (bs, k'') \<Rightarrow> Some (as @ bs, k'')))"
  by (induction xs arbitrary: k) (auto split: option.splits)

lemma mapM_names:
  assumes "mapM F gs k = Some (hs, k')"
    and "\<And>x k1 r. F x k1 = Some r \<Longrightarrow> fst (fst r) = fst x"
  shows "map fst hs = map fst gs"
  using assms
proof (induction gs arbitrary: k hs)
  case Nil
  then show ?case by simp
next
  case (Cons x gs)
  from Cons.prems(1) obtain y k1 ys where fx: "F x k = Some (y, k1)"
    and rest: "mapM F gs k1 = Some (ys, k')" and hs: "hs = y # ys"
    by (auto split: option.splits)
  have "fst y = fst x" using Cons.prems(2) [OF fx] by simp
  moreover have "map fst ys = map fst gs" using Cons.IH [OF rest] Cons.prems(2) by blast
  ultimately show ?case using hs by simp
qed

lemma mapM_lookup:
  assumes "mapM F gs k = Some (hs, k')"
    and "\<forall>x k1 r. F x k1 = Some r \<longrightarrow> fst (fst r) = fst x"
    and "map_of gs f = Some t'"
  shows "\<exists>sec k1 k2. map_of hs f = Some sec \<and> F (f, t') k1 = Some ((f, sec), k2)"
  using assms
proof (induction gs arbitrary: k hs)
  case Nil
  then show ?case by simp
next
  case (Cons x gs)
  from Cons.prems(1) obtain y k1 ys where fx: "F x k = Some (y, k1)"
    and rest: "mapM F gs k1 = Some (ys, k')" and hs: "hs = y # ys"
    by (auto split: option.splits)
  have name: "fst y = fst x" using Cons.prems(2) fx by fastforce
  show ?case
  proof (cases "fst x = f")
    case True
    then have x: "x = (f, t')" using Cons.prems(3) by (cases x) simp
    have y: "y = (f, snd y)" using name True by (cases y) simp
    have "map_of hs f = Some (snd y)" using hs y by (cases y) simp
    moreover have "F (f, t') k = Some ((f, snd y), k1)" using fx x y by simp
    ultimately show ?thesis by blast
  next
    case False
    then have "map_of gs f = Some t'" using Cons.prems(3) by (cases x) simp
    from Cons.IH [OF rest Cons.prems(2) this] obtain sec k2 k3 where
      "map_of ys f = Some sec" and "F (f, t') k2 = Some ((f, sec), k3)" by blast
    moreover have "map_of hs f = map_of ys f" using hs name False by (cases y) simp
    ultimately show ?thesis by metis
  qed
qed

subsection \<open>More fuel never changes a result\<close>

lemma fuel_Suc:
  "(\<forall>tr t v k r. Translator_Translate n P tr t v k = Some r \<longrightarrow>
       Translator_Translate (Suc n) P tr t v k = Some r) \<and>
   (\<forall>old k r. translateIgnition n P old k = Some r \<longrightarrow>
       translateIgnition (Suc n) P old k = Some r)"
proof (induction n)
  case 0
  then show ?case by simp
next
  case (Suc n)
  have tt: "\<And>tr t v k r. Translator_Translate n P tr t v k = Some r \<Longrightarrow>
       Translator_Translate (Suc n) P tr t v k = Some r"
    using Suc.IH by blast
  have ti: "\<And>old k r. translateIgnition n P old k = Some r \<Longrightarrow>
       translateIgnition (Suc n) P old k = Some r"
    using Suc.IH by blast
  have A: "Translator_Translate (Suc (Suc n)) P tr t v k = Some r"
    if h: "Translator_Translate (Suc n) P tr t v k = Some r" for tr t v k r
  proof (cases "getTranslator tr v")
    case (Some f)
    then show ?thesis using h ti by (cases f) (simp del: translateIgnition.simps)
  next
    case None
    show ?thesis
    proof (cases t)
      case TScalar
      then show ?thesis using h None by (simp split: val.splits)
    next
      case (TStruct m gs)
      show ?thesis
      proof (cases v)
        case (Struct m' fs)
        let ?F = "\<lambda>n. (\<lambda>(g, t') k'.
                             (case map_of fs g of
                                None \<Rightarrow> Some ((g, zero t'), k')
                              | Some x \<Rightarrow>
                                  (case Translator_Translate n P tr t' x k' of
                                     None \<Rightarrow> None
                                   | Some (y, k'') \<Rightarrow> Some ((g, y), k''))))"
        from h None TStruct Struct obtain hs k' where
          m: "mapM (?F n) gs k = Some (hs, k')" and r: "r = (Struct m hs, k')"
          by (auto split: option.splits)
        have "mapM (?F (Suc n)) gs k = Some (hs, k')"
        proof (rule mapM_mono [OF _ m])
          fix x k1 r1
          assume "?F n x k1 = Some r1"
          then show "?F (Suc n) x k1 = Some r1"
            by (cases x) (auto split: option.splits dest: tt simp del: Translator_Translate.simps)
        qed
        then show ?thesis using None TStruct Struct r by simp
      qed (use h None TStruct in simp_all)
    next
      case (TSeq t')
      show ?thesis
      proof (cases v)
        case (Seq xs)
        from h None TSeq Seq obtain ys k' where
          m: "mapM (Translator_Translate n P tr t') xs k = Some (ys, k')" and r: "r = (Seq ys, k')"
          by (auto split: option.splits)
        have "mapM (Translator_Translate (Suc n) P tr t') xs k = Some (ys, k')"
          by (rule mapM_mono [OF _ m]) (rule tt)
        then show ?thesis using None TSeq Seq r by simp
      qed (use h None TSeq in simp_all)
    next
      case (TOpt t')
      show ?thesis
      proof (cases v)
        case (Present x)
        from h None TOpt Present obtain y k' where
          m: "Translator_Translate n P tr t' x k = Some (y, k')" and r: "r = (Present y, k')"
          by (auto split: option.splits)
        from tt [OF m] show ?thesis using None TOpt Present r by simp
      qed (use h None TOpt in simp_all)
    qed
  qed
  have B: "translateIgnition (Suc (Suc n)) P old k = Some r"
    if h: "translateIgnition (Suc n) P old k = Some r" for old k r
  proof -
    from h obtain ret k' where
      m: "Translator_Translate n P NewTranslator (types_Ignition P) old k = Some (ret, k')"
      and r: "r = (set_Version (MaxVersion P) ret, k')"
      by (auto split: option.splits)
    from tt [OF m] show ?thesis using r by simp
  qed
  from A B show ?case by blast
qed

lemma fuel_mono:
  assumes "Translator_Translate n P tr t v k = Some r" and "n \<le> m"
  shows "Translator_Translate m P tr t v k = Some r"
proof -
  have "Translator_Translate (n + d) P tr t v k = Some r" for d
  proof (induction d)
    case 0
    then show ?case using assms(1) by simp
  next
    case (Suc d)
    then show ?case using conjunct1 [OF fuel_Suc [of "n + d" P]]
      unfolding add_Suc_right by blast
  qed
  from this [of "m - n"] show ?thesis using assms(2) by simp
qed

subsection \<open>Runs in which no custom translator fires\<close>

lemma fold_max_ge: "(a::nat) \<le> fold max xs a"
  by (induction xs arbitrary: a) (auto intro: order_trans [OF max.cobounded2])

lemma fold_max_mem: "x \<in> set xs \<Longrightarrow> (x::nat) \<le> fold max xs a"
proof (induction xs arbitrary: a)
  case Nil
  then show ?case by simp
next
  case (Cons y ys)
  show ?case
  proof (cases "x = y")
    case True
    have "x \<le> max y a" using True by simp
    also have "\<dots> \<le> fold max ys (max y a)" by (rule fold_max_ge)
    finally show ?thesis by simp
  next
    case False
    then show ?thesis using Cons by simp
  qed
qed

lemma height_field: "(g, t') \<in> set gs \<Longrightarrow> height t' < height (TStruct m gs)"
proof -
  assume "(g, t') \<in> set gs"
  then have "height t' \<in> set (map (\<lambda>(g, t). height t) gs)" by force
  then have "height t' \<le> fold max (map (\<lambda>(g, t). height t) gs) 0" by (rule fold_max_mem)
  then show ?thesis by simp
qed

lemma height_pos: "0 < height t"
  by (cases t) simp_all

lemma quiet_getTranslator: "quiet tr v \<Longrightarrow> getTranslator tr v = None"
  by (cases v) (auto simp: quiet_def getTranslator_def find_None_iff list_all_iff)

lemma quiet_field: "quiet tr (Struct m fs) \<Longrightarrow> map_of fs g = Some x \<Longrightarrow> quiet tr x"
  by (auto simp: quiet_def list_all_iff dest!: map_of_SomeD)

lemma quiet_elem: "quiet tr (Seq xs) \<Longrightarrow> x \<in> set xs \<Longrightarrow> quiet tr x"
  by (auto simp: quiet_def list_all_iff)

lemma quiet_Present: "quiet tr (Present x) \<Longrightarrow> quiet tr x"
  by (auto simp: quiet_def list_all_iff)

lemma quiet_run:
  "quiet tr v \<Longrightarrow> height t \<le> n \<Longrightarrow> \<exists>y. Translator_Translate n P tr t v k = Some (y, k)"
proof (induction n arbitrary: t v k)
  case 0
  then show ?case using height_pos [of t] by simp
next
  case (Suc n)
  have none: "getTranslator tr v = None" using Suc.prems(1) by (rule quiet_getTranslator)
  show ?case
  proof (cases t)
    case TScalar
    then show ?thesis using none by (simp split: val.splits)
  next
    case (TStruct m gs)
    show ?thesis
    proof (cases v)
      case (Struct m' fs)
      let ?F = "(\<lambda>(g, t') k'.
                             (case map_of fs g of
                                None \<Rightarrow> Some ((g, zero t'), k')
                              | Some x \<Rightarrow>
                                  (case Translator_Translate n P tr t' x k' of
                                     None \<Rightarrow> None
                                   | Some (y, k'') \<Rightarrow> Some ((g, y), k''))))"
      have "\<exists>hs. mapM ?F gs k = Some (hs, k)"
      proof (rule mapM_quiet)
        fix x k1
        assume x: "x \<in> set gs"
        obtain g t' where gt: "x = (g, t')" by (cases x)
        have ht: "height t' \<le> n"
          using height_field [of g t' gs m] x gt Suc.prems(2) TStruct by simp
        show "\<exists>y. ?F x k1 = Some (y, k1)"
        proof (cases "map_of fs g")
          case None
          then show ?thesis using gt by simp
        next
          case (Some x')
          have "quiet tr x'" using Suc.prems(1) Struct Some by (auto intro: quiet_field)
          from Suc.IH [OF this ht, of k1] show ?thesis using gt Some by auto
        qed
      qed
      then show ?thesis using none TStruct Struct by auto
    qed (use none TStruct in simp_all)
  next
    case (TSeq t')
    show ?thesis
    proof (cases v)
      case (Seq xs)
      have "\<exists>ys. mapM (Translator_Translate n P tr t') xs k = Some (ys, k)"
      proof (rule mapM_quiet)
        fix x k1
        assume "x \<in> set xs"
        then have "quiet tr x" using Suc.prems(1) Seq by (auto intro: quiet_elem)
        moreover have "height t' \<le> n" using Suc.prems(2) TSeq by simp
        ultimately show "\<exists>y. Translator_Translate n P tr t' x k1 = Some (y, k1)"
          by (rule Suc.IH)
      qed
      then show ?thesis using none TSeq Seq by auto
    qed (use none TSeq in simp_all)
  next
    case (TOpt t')
    show ?thesis
    proof (cases v)
      case (Present x)
      have "quiet tr x" using Suc.prems(1) Present by (auto intro: quiet_Present)
      moreover have "height t' \<le> n" using Suc.prems(2) TOpt by simp
      ultimately obtain y where "Translator_Translate n P tr t' x k = Some (y, k)"
        using Suc.IH by blast
      then show ?thesis using none TOpt Present by simp
    qed (use none TOpt in simp_all)
  qed
qed

lemma quiet_Nil: "quiet NewTranslator v"
  by (simp add: quiet_def NewTranslator_def)

subsection \<open>The Ignition section\<close>

text \<open>One call on the Ignition section under the translator that holds the override.\<close>
lemma mapM_trace:
  assumes "\<And>x k y k' k2. x \<in> set xs \<Longrightarrow> f x k = Some (y, k') \<Longrightarrow> f x k2 = Some (y, k2)"
    and "mapM f xs k = Some (ys, k')"
  shows "mapM f xs k2 = Some (ys, k2)"
  using assms
proof (induction xs arbitrary: k ys k2)
  case Nil
  then show ?case by simp
next
  case (Cons x xs)
  from Cons.prems(2) obtain y k1 zs where fx: "f x k = Some (y, k1)"
    and rest: "mapM f xs k1 = Some (zs, k')" and ys: "ys = y # zs"
    by (auto split: option.splits)
  have "f x k2 = Some (y, k2)" using Cons.prems(1) fx by simp
  moreover have "mapM f xs k2 = Some (zs, k2)"
    using Cons.IH [OF _ rest] Cons.prems(1) by simp
  ultimately show ?case using ys by simp
qed

lemma quiet_trace:
  "quiet tr v \<Longrightarrow> Translator_Translate n P tr t v k = Some (y, k') \<Longrightarrow>
     Translator_Translate n P tr t v k2 = Some (y, k2)"
proof (induction n arbitrary: t v k y k' k2)
  case 0
  then show ?case by simp
next
  case (Suc n)
  have none: "getTranslator tr v = None" using Suc.prems(1) by (rule quiet_getTranslator)
  show ?case
  proof (cases t)
    case TScalar
    then show ?thesis using none Suc.prems(2) by (auto split: val.splits)
  next
    case (TStruct m gs)
    show ?thesis
    proof (cases v)
      case (Struct m' fs)
      let ?F = "(\<lambda>(g, t') k'.
                             (case map_of fs g of
                                None \<Rightarrow> Some ((g, zero t'), k')
                              | Some x \<Rightarrow>
                                  (case Translator_Translate n P tr t' x k' of
                                     None \<Rightarrow> None
                                   | Some (y, k'') \<Rightarrow> Some ((g, y), k''))))"
      from Suc.prems(2) none TStruct Struct obtain hs where
        m: "mapM ?F gs k = Some (hs, k')" and y: "y = Struct m hs"
        by (auto split: option.splits)
      have "mapM ?F gs k2 = Some (hs, k2)"
      proof (rule mapM_trace [OF _ m])
        fix x k1 z k1' k3
        assume x: "x \<in> set gs" and fx: "?F x k1 = Some (z, k1')"
        obtain g t' where gt: "x = (g, t')" by (cases x)
        show "?F x k3 = Some (z, k3)"
        proof (cases "map_of fs g")
          case None
          then show ?thesis using gt fx by auto
        next
          case (Some x')
          have q: "quiet tr x'" using Suc.prems(1) Struct Some by (auto intro: quiet_field)
          from fx gt Some obtain w where
            r: "Translator_Translate n P tr t' x' k1 = Some (w, k1')" and z: "z = (g, w)"
            by (auto split: option.splits)
          from Suc.IH [OF q r, of k3] show ?thesis using gt Some z by simp
        qed
      qed
      then show ?thesis using none TStruct Struct y by simp
    qed (use none TStruct Suc.prems(2) in auto)
  next
    case (TSeq t')
    show ?thesis
    proof (cases v)
      case (Seq xs)
      from Suc.prems(2) none TSeq Seq obtain ys where
        m: "mapM (Translator_Translate n P tr t') xs k = Some (ys, k')" and y: "y = Seq ys"
        by (auto split: option.splits)
      have "mapM (Translator_Translate n P tr t') xs k2 = Some (ys, k2)"
      proof (rule mapM_trace [OF _ m])
        fix x k1 z k1' k3
        assume "x \<in> set xs" and r: "Translator_Translate n P tr t' x k1 = Some (z, k1')"
        then have "quiet tr x" using Suc.prems(1) Seq by (auto intro: quiet_elem)
        from Suc.IH [OF this r] show "Translator_Translate n P tr t' x k3 = Some (z, k3)" .
      qed
      then show ?thesis using none TSeq Seq y by simp
    qed (use none TSeq Suc.prems(2) in auto)
  next
    case (TOpt t')
    show ?thesis
    proof (cases v)
      case (Present x)
      have q: "quiet tr x" using Suc.prems(1) Present by (auto intro: quiet_Present)
      from Suc.prems(2) none TOpt Present obtain w where
        r: "Translator_Translate n P tr t' x k = Some (w, k')" and y: "y = Present w"
        by (auto split: option.splits)
      from Suc.IH [OF q r, of k2] show ?thesis using none TOpt Present y by simp
    qed (use none TOpt Suc.prems(2) in auto)
  qed
qed

lemma quiet_value:
  assumes q: "quiet tr v"
    and run: "Translator_Translate n P tr t v k = Some (y, k')"
    and h: "height t \<le> m"
  shows "Translator_Translate m P tr t v k2 = Some (y, k2)"
proof -
  from quiet_run [OF q h, of P k2] obtain z where
    z: "Translator_Translate m P tr t v k2 = Some (z, k2)" by blast
  have a: "Translator_Translate (max n m) P tr t v k2 = Some (z, k2)"
    by (rule fuel_mono [OF z]) simp
  have "Translator_Translate n P tr t v k2 = Some (y, k2)"
    by (rule quiet_trace [OF q run])
  then have b: "Translator_Translate (max n m) P tr t v k2 = Some (y, k2)"
    by (rule fuel_mono) simp
  from a b have "z = y" by simp
  with z show ?thesis by simp
qed

lemma section_copy:
  assumes ign: "runtime_type ign = Some ''old_types.Ignition''"
    and fuel: "height (types_Ignition P) + 2 \<le> n"
  shows "\<exists>copy. Translator_Translate n P [Fn_translateIgnition] t ign k =
           Some (set_Version (MaxVersion P) copy, k @ [(Fn_translateIgnition, ign)]) \<and>
         (\<forall>m k2. height (types_Ignition P) \<le> m \<longrightarrow>
            Translator_Translate m P NewTranslator (types_Ignition P) ign k2 = Some (copy, k2))"
proof -
  define n' where "n' = n - 2"
  have n: "n = Suc (Suc n')" and h: "height (types_Ignition P) \<le> n'"
    using fuel by (simp_all add: n'_def)
  have g: "getTranslator [Fn_translateIgnition] ign = Some Fn_translateIgnition"
    using ign by (simp add: getTranslator_def)
  let ?k = "k @ [(Fn_translateIgnition, ign)]"
  from quiet_run [OF quiet_Nil h, of P ign ?k]
  obtain copy where c: "Translator_Translate n' P NewTranslator (types_Ignition P) ign ?k =
      Some (copy, ?k)"
    by blast
  have "Translator_Translate n P [Fn_translateIgnition] t ign k =
      Some (set_Version (MaxVersion P) copy, ?k)"
    using c n g by simp
  moreover have "Translator_Translate m P NewTranslator (types_Ignition P) ign k2 = Some (copy, k2)"
    if "height (types_Ignition P) \<le> m" for m k2
    by (rule quiet_value [OF quiet_Nil c that])
  ultimately show ?thesis by blast
qed


lemma set_Version_field:
  "g \<in> set (map fst fs) \<Longrightarrow>
     map_of (map (\<lambda>(h, x). if h = g then (h, Scalar s) else (h, x)) fs) g = Some (Scalar s)"
  by (induction fs) auto

lemma stamped:
  assumes run: "translateIgnition n P ign k = Some (sec, k')"
    and ign: "runtime_type ign = Some ''old_types.Ignition''"
    and ver: "''Version'' \<in> set (map fst (Ignition_fields P))"
  shows "get_field ''Version'' sec = Some (Scalar (MaxVersion P))"
proof -
  from run obtain n1 ret where n: "n = Suc n1"
    and r: "Translator_Translate n1 P NewTranslator (types_Ignition P) ign k = Some (ret, k')"
    and sec: "sec = set_Version (MaxVersion P) ret"
    by (cases n) (auto split: option.splits)
  from ign obtain m fs where v: "ign = Struct m fs" by (cases ign) auto
  from r obtain n2 where n1: "n1 = Suc n2" by (cases n1) auto
  have none: "getTranslator NewTranslator ign = None"
    by (rule quiet_getTranslator) (rule quiet_Nil)
  let ?F = "(\<lambda>(g, t') k'.
                             (case map_of fs g of
                                None \<Rightarrow> Some ((g, zero t'), k')
                              | Some x \<Rightarrow>
                                  (case Translator_Translate n2 P NewTranslator t' x k' of
                                     None \<Rightarrow> None
                                   | Some (y, k'') \<Rightarrow> Some ((g, y), k''))))"
  from r n1 v none obtain hs where m: "mapM ?F (Ignition_fields P) k = Some (hs, k')"
    and ret: "ret = Struct ''types.Ignition'' hs"
    by (auto simp: types_Ignition_def split: option.splits)
  have "map fst hs = map fst (Ignition_fields P)"
    by (rule mapM_names [OF m]) (auto split: option.splits)
  then have "''Version'' \<in> set (map fst hs)" using ver by simp
  then show ?thesis using sec ret by (simp add: set_Version_field)
qed

subsection \<open>Every run returns\<close>

lemma mapM_returns:
  assumes "\<And>x k. x \<in> set xs \<Longrightarrow> \<exists>r. f x k = Some r"
  shows "\<exists>r. mapM f xs k = Some r"
  using assms
proof (induction xs arbitrary: k)
  case Nil
  then show ?case by simp
next
  case (Cons x xs)
  from Cons.prems [of x k] obtain y k1 where fx: "f x k = Some (y, k1)" by auto
  from Cons.IH [of k1] Cons.prems obtain ys k2 where "mapM f xs k1 = Some (ys, k2)" by auto
  with fx show ?case by simp
qed

lemma any_run:
  "height t + height (types_Ignition P) + 2 \<le> n \<Longrightarrow>
     \<exists>r. Translator_Translate n P tr t v k = Some r"
proof (induction n arbitrary: t v k)
  case 0
  then show ?case by simp
next
  case (Suc n)
  show ?case
  proof (cases "getTranslator tr v")
    case (Some f)
    let ?k = "k @ [(Fn_translateIgnition, v)]"
    from Suc.prems height_pos [of t] obtain n' where n: "n = Suc n'"
      and h: "height (types_Ignition P) \<le> n'"
      by (cases n) auto
    from quiet_run [OF quiet_Nil h, of P v ?k]
    obtain y where "Translator_Translate n' P NewTranslator (types_Ignition P) v ?k = Some (y, ?k)"
      by blast
    then show ?thesis using Some n by (cases f) simp
  next
    case None
    show ?thesis
    proof (cases t)
      case TScalar
      then show ?thesis using None by (simp split: val.splits)
    next
      case (TStruct m gs)
      show ?thesis
      proof (cases v)
        case (Struct m' fs)
        let ?F = "(\<lambda>(g, t') k'.
                             (case map_of fs g of
                                None \<Rightarrow> Some ((g, zero t'), k')
                              | Some x \<Rightarrow>
                                  (case Translator_Translate n P tr t' x k' of
                                     None \<Rightarrow> None
                                   | Some (y, k'') \<Rightarrow> Some ((g, y), k''))))"
        have "\<exists>r. mapM ?F gs k = Some r"
        proof (rule mapM_returns)
          fix x k1
          assume x: "x \<in> set gs"
          obtain g t' where gt: "x = (g, t')" by (cases x)
          have ht: "height t' + height (types_Ignition P) + 2 \<le> n"
            using height_field [of g t' gs m] x gt Suc.prems TStruct by simp
          show "\<exists>r. ?F x k1 = Some r"
          proof (cases "map_of fs g")
            case None
            then show ?thesis using gt by simp
          next
            case (Some x')
            from Suc.IH [OF ht, of x' k1] show ?thesis using gt Some by auto
          qed
        qed
        then show ?thesis using None TStruct Struct by auto
      qed (use None TStruct in simp_all)
    next
      case (TSeq t')
      show ?thesis
      proof (cases v)
        case (Seq xs)
        have "\<exists>r. mapM (Translator_Translate n P tr t') xs k = Some r"
        proof (rule mapM_returns)
          fix x k1
          have "height t' + height (types_Ignition P) + 2 \<le> n" using Suc.prems TSeq by simp
          then show "\<exists>r. Translator_Translate n P tr t' x k1 = Some r"
            by (rule Suc.IH)
        qed
        then show ?thesis using None TSeq Seq by auto
      qed (use None TSeq in simp_all)
    next
      case (TOpt t')
      show ?thesis
      proof (cases v)
        case (Present x)
        have "height t' + height (types_Ignition P) + 2 \<le> n" using Suc.prems TOpt by simp
        then obtain r where "Translator_Translate n P tr t' x k = Some r"
          using Suc.IH by blast
        then show ?thesis using None TOpt Present by (cases r) simp
      qed (use None TOpt in simp_all)
    qed
  qed
qed

lemma Translate_returns:
  "fuel_needed P \<le> n \<Longrightarrow> \<exists>r. Translate n P old = Some r"
  unfolding Translate_def Let_def
  by (rule any_run) (simp add: fuel_needed_def)

subsection \<open>Runs of \<open>Translate\<close>\<close>

lemma once_copy:
  assumes src: "source_Config f old"
    and decl: "f \<in> set (map fst (Config_fields P))"
    and dist: "distinct (map fst (Config_fields P))"
    and fuel: "fuel_needed P \<le> n"
  shows "\<exists>ret ign copy. get_field f old = Some ign \<and>
           Translate n P old = Some (ret, [(Fn_translateIgnition, ign)]) \<and>
           (\<forall>m k. height (types_Ignition P) \<le> m \<longrightarrow>
              Translator_Translate m P NewTranslator (types_Ignition P) ign k = Some (copy, k)) \<and>
           get_field f ret = Some (set_Version (MaxVersion P) copy)"
proof -
  from src obtain fs where old: "old = Struct ''old_types.Config'' fs"
    by (cases old) auto
  from src old obtain ign where ign: "map_of fs f = Some ign"
    and rt: "runtime_type ign = Some ''old_types.Ignition''"
    by (auto split: option.splits)
  have others: "\<And>g x. map_of fs g = Some x \<Longrightarrow> g \<noteq> f \<Longrightarrow> quiet [Fn_translateIgnition] x"
    using src old by (auto simp: quiet_def list_all_iff dest!: map_of_SomeD)
  from fuel obtain n' where n: "n = Suc n'"
    and h1: "height (types_Config P) \<le> Suc n'" and h2: "height (types_Ignition P) + 2 \<le> n'"
    by (cases n) (auto simp: fuel_needed_def)
  let ?tr = "[Fn_translateIgnition]"
  let ?F = "(\<lambda>(g, t') k'.
                             (case map_of fs g of
                                None \<Rightarrow> Some ((g, zero t'), k')
                              | Some x \<Rightarrow>
                                  (case Translator_Translate n' P ?tr t' x k' of
                                     None \<Rightarrow> None
                                   | Some (y, k'') \<Rightarrow> Some ((g, y), k''))))"
  from decl obtain t0 where "(f, t0) \<in> set (Config_fields P)"
    by auto
  then obtain gs1 gs2 where split: "Config_fields P = gs1 @ (f, t0) # gs2"
    by (blast dest: split_list)
  have "distinct (map fst gs1 @ f # map fst gs2)"
    using dist by (simp add: split)
  then have "f \<notin> fst ` set gs1" and "f \<notin> fst ` set gs2"
    by simp_all
  then have nf1: "\<And>x. x \<in> set gs1 \<Longrightarrow> fst x \<noteq> f"
    and nf2: "\<And>x. x \<in> set gs2 \<Longrightarrow> fst x \<noteq> f"
    by blast+
  have quietF: "\<exists>y. ?F x k1 = Some (y, k1)"
    if x: "x \<in> set (Config_fields P)" and nf: "fst x \<noteq> f" for x k1
  proof -
    obtain g t' where gt: "x = (g, t')" by (cases x)
    have ht: "height t' \<le> n'"
      using height_field [of g t' "Config_fields P" "''types.Config''"] x gt h1
      by (simp add: types_Config_def)
    show ?thesis
    proof (cases "map_of fs g")
      case None
      then show ?thesis using gt by simp
    next
      case (Some x')
      have "quiet ?tr x'" using others [OF Some] nf gt by simp
      from quiet_run [OF this ht, of P k1] show ?thesis using gt Some by auto
    qed
  qed
  have "\<exists>hs1. mapM ?F gs1 [] = Some (hs1, [])"
    by (rule mapM_quiet, rule quietF) (simp_all add: split nf1)
  then obtain hs1 where m1: "mapM ?F gs1 [] = Some (hs1, [])" ..
  from section_copy [OF rt h2, of t0 "[]"] obtain copy where
    y: "Translator_Translate n' P ?tr t0 ign [] =
          Some (set_Version (MaxVersion P) copy, [(Fn_translateIgnition, ign)])"
    and copy: "\<forall>m k. height (types_Ignition P) \<le> m \<longrightarrow>
          Translator_Translate m P NewTranslator (types_Ignition P) ign k = Some (copy, k)"
    by auto
  define y where "y = set_Version (MaxVersion P) copy"
  note y = y [folded y_def]
  have "\<exists>hs2. mapM ?F gs2 [(Fn_translateIgnition, ign)] = Some (hs2, [(Fn_translateIgnition, ign)])"
    by (rule mapM_quiet, rule quietF) (simp_all add: split nf2)
  then obtain hs2 where m2: "mapM ?F gs2 [(Fn_translateIgnition, ign)] = Some (hs2, [(Fn_translateIgnition, ign)])" ..
  have "map fst hs1 = map fst gs1"
    by (rule mapM_names [OF m1]) (auto split: option.splits)
  then have "f \<notin> fst ` set hs1"
    using \<open>f \<notin> fst ` set gs1\<close> by (metis set_map)
  then have "map_of hs1 f = None"
    by (simp add: map_of_eq_None_iff)
  then have look: "map_of (hs1 @ (f, y) # hs2) f = Some y"
    by (simp add: map_add_def)
  have m: "mapM ?F (Config_fields P) [] = Some (hs1 @ (f, y) # hs2, [(Fn_translateIgnition, ign)])"
    using m1 m2 y ign by (simp add: split mapM_append)
  have "getTranslator ?tr old = None"
    using old by (simp add: getTranslator_def)
  then have "Translate n P old = Some (Struct ''types.Config'' (hs1 @ (f, y) # hs2), [(Fn_translateIgnition, ign)])"
    using m old n
    by (simp add: Translate_def NewTranslator_def AddCustomTranslator_def types_Config_def)
  then have run: "Translate n P old =
      Some (Struct ''types.Config'' (hs1 @ (f, y) # hs2), [(Fn_translateIgnition, ign)])"
    using old by simp
  have sec: "get_field f old = Some ign"
    using old ign by simp
  have got: "get_field f (Struct ''types.Config'' (hs1 @ (f, y) # hs2)) = Some y"
    by (simp only: get_field.simps look)
  from sec run copy got show ?thesis unfolding y_def by blast
qed

lemma stamped_run:
  assumes run: "Translate n P old = Some (ret, k)"
    and old: "old = Struct ''old_types.Config'' fs"
    and ign: "map_of fs f = Some ign"
    and rt: "runtime_type ign = Some ''old_types.Ignition''"
    and decl: "f \<in> set (map fst (Config_fields P))"
    and ver: "''Version'' \<in> set (map fst (Ignition_fields P))"
  shows "\<exists>sec. get_field f ret = Some sec \<and>
           get_field ''Version'' sec = Some (Scalar (MaxVersion P))"
proof -
  let ?tr = "[Fn_translateIgnition]"
  from run obtain n1 where n: "n = Suc n1"
    by (cases n) (auto simp: Translate_def)
  have none: "getTranslator ?tr old = None"
    using old by (simp add: getTranslator_def)
  let ?F = "(\<lambda>(g, t') k'.
                             (case map_of fs g of
                                None \<Rightarrow> Some ((g, zero t'), k')
                              | Some x \<Rightarrow>
                                  (case Translator_Translate n1 P ?tr t' x k' of
                                     None \<Rightarrow> None
                                   | Some (y, k'') \<Rightarrow> Some ((g, y), k''))))"
  from run n old none obtain hs where m: "mapM ?F (Config_fields P) [] = Some (hs, k)"
    and ret: "ret = Struct ''types.Config'' hs"
    by (auto simp: Translate_def NewTranslator_def AddCustomTranslator_def types_Config_def
        split: option.splits)
  from decl obtain t0 where t0: "map_of (Config_fields P) f = Some t0"
    by (metis map_of_eq_None_iff not_Some_eq set_map)
  have names: "\<forall>x k1 r. ?F x k1 = Some r \<longrightarrow> fst (fst r) = fst x"
    by (auto split: option.splits)
  from mapM_lookup [OF m names t0] obtain sec k1 k2 where
    look: "map_of hs f = Some sec" and step: "?F (f, t0) k1 = Some ((f, sec), k2)"
    by blast
  from step ign have call: "Translator_Translate n1 P ?tr t0 ign k1 = Some (sec, k2)"
    by (auto split: option.splits)
  then obtain n2 where n1: "n1 = Suc n2" by (cases n1) auto
  have "getTranslator ?tr ign = Some Fn_translateIgnition"
    using rt by (simp add: getTranslator_def)
  with call n1 have "translateIgnition n2 P ign (k1 @ [(Fn_translateIgnition, ign)]) = Some (sec, k2)"
    by simp
  from stamped [OF this rt ver] show ?thesis using look ret by simp
qed

lemma same_run:
  assumes "Translate n P old = Some r" and "Translate m P old' = Some r'" and "old = old'"
  shows "r = r'"
proof (cases "n \<le> m")
  case True
  have "Translate m P old = Some r"
    using assms(1) True unfolding Translate_def Let_def by (rule fuel_mono)
  then show ?thesis using assms(2,3) by simp
next
  case False
  then have le: "m \<le> n" by simp
  have "Translate n P old' = Some r'"
    using assms(2) le unfolding Translate_def Let_def by (rule fuel_mono)
  then show ?thesis using assms(1,3) by simp
qed

subsection \<open>The store\<close>

lemma replicate_step: "Suc l \<le> m \<Longrightarrow> x # replicate (m - Suc l) x = replicate (m - l) x"
proof -
  assume "Suc l \<le> m"
  then have "Suc (m - Suc l) = m - l" by simp
  then have "replicate (Suc (m - Suc l)) x = replicate (m - l) x" by simp
  then show ?thesis by simp
qed

lemma grows_map:
  assumes "grows d s k p q"
  shows "grows d s k (case p of None \<Rightarrow> None | Some (y, k) \<Rightarrow> Some (h y, k))
           (case q of None \<Rightarrow> None | Some (y, st) \<Rightarrow> Some (h y, st))"
  using assms by (auto simp: grows_def split: option.splits)

lemma mapM_grows:
  assumes "\<And>x j k. x \<in> set xs \<Longrightarrow>
      grows 0 (s @ replicate j NewTranslator) k (F x k) (G x (s @ replicate j NewTranslator, k))"
  shows "grows 0 (s @ replicate j NewTranslator) k (mapM F xs k)
      (mapM G xs (s @ replicate j NewTranslator, k))"
  using assms
proof (induction xs arbitrary: j k)
  case Nil
  show ?case by (simp add: grows_def)
next
  case (Cons x xs)
  have hd: "grows 0 (s @ replicate j NewTranslator) k (F x k)
      (G x (s @ replicate j NewTranslator, k))"
    using Cons.prems by simp
  show ?case
  proof (cases "F x k")
    case None
    then show ?thesis using hd by (simp add: grows_def)
  next
    case (Some r)
    obtain y k1 where r: "r = (y, k1)" by (cases r)
    from hd Some r have le1: "length k \<le> length k1"
      and g: "G x (s @ replicate j NewTranslator, k) =
            Some (y, (s @ replicate j NewTranslator) @
                     replicate (length k1 - length k) NewTranslator, k1)"
      by (auto simp: grows_def)
    define j1 where "j1 = j + (length k1 - length k)"
    have st: "(s @ replicate j NewTranslator) @ replicate (length k1 - length k) NewTranslator =
        s @ replicate j1 NewTranslator"
      by (simp add: replicate_add j1_def)
    have tl: "grows 0 (s @ replicate j1 NewTranslator) k1 (mapM F xs k1)
        (mapM G xs (s @ replicate j1 NewTranslator, k1))"
      by (rule Cons.IH) (use Cons.prems in simp)
    show ?thesis
    proof (cases "mapM F xs k1")
      case None
      then show ?thesis using Some r g st tl by (simp add: grows_def)
    next
      case (Some r2)
      obtain ys k2 where r2: "r2 = (ys, k2)" by (cases r2)
      from tl Some r2 have le2: "length k1 \<le> length k2"
        and g2: "mapM G xs (s @ replicate j1 NewTranslator, k1) =
           Some (ys, (s @ replicate j1 NewTranslator) @
                     replicate (length k2 - length k1) NewTranslator, k2)"
        by (auto simp: grows_def)
      have sum: "j1 + (length k2 - length k1) = j + (length k2 - length k)"
        using le1 le2 by (simp add: j1_def)
      have "(s @ replicate j1 NewTranslator) @ replicate (length k2 - length k1) NewTranslator =
          (s @ replicate j NewTranslator) @ replicate (length k2 - length k) NewTranslator"
        using sum by (simp add: replicate_add [symmetric])
      with g2 have "mapM G (x # xs) (s @ replicate j NewTranslator, k) =
          Some (y # ys, (s @ replicate j NewTranslator) @
                        replicate (length k2 - length k) NewTranslator, k2)"
        using g st by simp
      moreover have "mapM F (x # xs) k = Some (y # ys, k2)"
        using \<open>F x k = Some r\<close> r Some r2 by simp
      moreover have "length k \<le> length k2" using le1 le2 by simp
      ultimately show ?thesis by (simp add: grows_def)
    qed
  qed
qed

lemma obj_grows:
  "(\<forall>a s t v k. a < length s \<longrightarrow>
      grows 0 s k (Translator_Translate n P (s ! a) t v k)
                  (Translator_Translate_obj n P a t v (s, k))) \<and>
   (\<forall>s old k.
      grows 1 s k (translateIgnition n P old k) (translateIgnition_obj n P old (s, k)))"
proof (induction n)
  case 0
  then show ?case by (simp add: grows_def)
next
  case (Suc n)
  have tt: "grows 0 s k (Translator_Translate n P (s ! a) t v k)
              (Translator_Translate_obj n P a t v (s, k))" if "a < length s" for a s t v k
    using Suc.IH that by blast
  have ti: "grows 1 s k (translateIgnition n P old k) (translateIgnition_obj n P old (s, k))"
    for s old k
    using Suc.IH by blast
  have tt': "grows 0 (s @ replicate j NewTranslator) k (Translator_Translate n P (s ! a) t v k)
      (Translator_Translate_obj n P a t v (s @ replicate j NewTranslator, k))"
    if "a < length s" for a s t v k j
    using tt [where a = a and s = "s @ replicate j NewTranslator" and t = t and v = v and k = k]
      that by (simp add: nth_append)
  have A: "grows 0 s k (Translator_Translate (Suc n) P (s ! a) t v k)
              (Translator_Translate_obj (Suc n) P a t v (s, k))" if a: "a < length s"
    for a s t v k
  proof -
    have r: "rules_of s a = s ! a" using a by (simp add: rules_of_def)
    show ?thesis
    proof (cases "getTranslator (s ! a) v")
      case (Some f)
      let ?k = "k @ [(Fn_translateIgnition, v)]"
      have "grows 0 s k (translateIgnition n P v ?k) (translateIgnition_obj n P v (s, ?k))"
        using ti [where s = s and k = ?k and old = v]
        by (auto simp: grows_def replicate_step split: option.splits)
      then show ?thesis using Some r
        by (cases f) (simp del: translateIgnition.simps translateIgnition_obj.simps)
    next
      case None
      show ?thesis
      proof (cases t)
        case TScalar
        then show ?thesis using None r by (cases v) (simp_all add: grows_def)
      next
        case (TStruct m gs)
        show ?thesis
        proof (cases v)
          case (Struct m' fs)
          let ?F = "(\<lambda>(g, t') k'.
                             (case map_of fs g of
                                None \<Rightarrow> Some ((g, zero t'), k')
                              | Some x \<Rightarrow>
                                  (case Translator_Translate n P (s ! a) t' x k' of
                                     None \<Rightarrow> None
                                   | Some (y, k'') \<Rightarrow> Some ((g, y), k''))))"
          let ?G = "(\<lambda>(g, t') st'.
                             (case map_of fs g of
                                None \<Rightarrow> Some ((g, zero t'), st')
                              | Some x \<Rightarrow>
                                  (case Translator_Translate_obj n P a t' x st' of
                                     None \<Rightarrow> None
                                   | Some (y, st'') \<Rightarrow> Some ((g, y), st''))))"
          have el: "grows 0 (s @ replicate j NewTranslator) k1 (?F x k1)
              (?G x (s @ replicate j NewTranslator, k1))" for x j k1
          proof -
            obtain g t' where gt: "x = (g, t')" by (cases x)
            show ?thesis
            proof (cases "map_of fs g")
              case None
              then show ?thesis using gt by (simp add: grows_def)
            next
              case (Some x')
              from grows_map [OF tt' [OF a, where j = j and k = k1 and t = t' and v = x'], of "Pair g"]
              show ?thesis using gt Some by simp
            qed
          qed
          have "grows 0 (s @ replicate 0 NewTranslator) k (mapM ?F gs k)
              (mapM ?G gs (s @ replicate 0 NewTranslator, k))"
            by (rule mapM_grows) (rule el)
          then have "grows 0 s k (mapM ?F gs k) (mapM ?G gs (s, k))" by simp
          from grows_map [OF this, of "Struct m"] show ?thesis
            using None r TStruct Struct by simp
        qed (use None r TStruct in \<open>simp_all add: grows_def\<close>)
      next
        case (TSeq t')
        show ?thesis
        proof (cases v)
          case (Seq xs)
          have "grows 0 (s @ replicate 0 NewTranslator) k
              (mapM (Translator_Translate n P (s ! a) t') xs k)
              (mapM (Translator_Translate_obj n P a t') xs (s @ replicate 0 NewTranslator, k))"
            by (rule mapM_grows) (rule tt' [OF a])
          then have "grows 0 s k (mapM (Translator_Translate n P (s ! a) t') xs k)
              (mapM (Translator_Translate_obj n P a t') xs (s, k))" by simp
          from grows_map [OF this, of Seq] show ?thesis
            using None r TSeq Seq by simp
        qed (use None r TSeq in \<open>simp_all add: grows_def\<close>)
      next
        case (TOpt t')
        show ?thesis
        proof (cases v)
          case (Present x)
          from grows_map [OF tt [OF a, where k = k and t = t' and v = x], of Present] show ?thesis
            using None r TOpt Present by simp
        qed (use None r TOpt in \<open>simp_all add: grows_def\<close>)
      qed
    qed
  qed
  have B: "grows 1 s k (translateIgnition (Suc n) P old k)
      (translateIgnition_obj (Suc n) P old (s, k))"
    for s old k
  proof -
    have "grows 0 (s @ [NewTranslator]) k
        (Translator_Translate n P ((s @ [NewTranslator]) ! length s) (types_Ignition P) old k)
        (Translator_Translate_obj n P (length s) (types_Ignition P) old (s @ [NewTranslator], k))"
      by (rule tt) simp
    then have "grows 1 s k (Translator_Translate n P NewTranslator (types_Ignition P) old k)
        (Translator_Translate_obj n P (length s) (types_Ignition P) old (s @ [NewTranslator], k))"
      by (auto simp: grows_def split: option.splits)
    from grows_map [OF this, of "set_Version (MaxVersion P)"] show ?thesis
      by (simp add: NewTranslator_obj_def)
  qed
  from A B show ?case by blast
qed

lemma Translate_obj_grows:
  "case Translate n P old of
     None \<Rightarrow> Translate_obj n P s old = None
   | Some (ret, k) \<Rightarrow>
       Translate_obj n P s old =
         Some (ret, s @ [[Fn_translateIgnition]] @ replicate (length k) NewTranslator, k)"
proof -
  let ?s = "s @ [[Fn_translateIgnition]]"
  have "length s < length ?s" by simp
  from conjunct1 [OF obj_grows [of n P], rule_format, OF this]
  have "grows 0 ?s [] (Translator_Translate n P (?s ! length s) (types_Config P) old [])
      (Translator_Translate_obj n P (length s) (types_Config P) old (?s, []))" .
  moreover have "Translate_obj n P s old =
      Translator_Translate_obj n P (length s) (types_Config P) old (?s, [])"
    by (simp add: Translate_obj_def NewTranslator_obj_def AddCustomTranslator_obj_def
        NewTranslator_def AddCustomTranslator_def)
  moreover have "Translate n P old =
      Translator_Translate n P (?s ! length s) (types_Config P) old []"
    by (simp add: Translate_def NewTranslator_def AddCustomTranslator_def)
  ultimately show ?thesis
    by (auto simp: grows_def split: option.splits)
qed

section \<open>Properties of the hexadecimal encoding\<close>

lemma hexdigit_inj:
  assumes "m < 16" and "n < 16" and "hexdigit m = hexdigit n"
  shows "m = n"
proof -
  have "distinct ''0123456789abcdef''" by simp
  moreover have "m < length ''0123456789abcdef''" "n < length ''0123456789abcdef''"
    using assms by simp_all
  ultimately show ?thesis
    using assms(3) unfolding hexdigit_def by (simp only: nth_eq_iff_index_eq)
qed

lemma of_char_less: "(of_char c :: nat) < 256"
  by (metis of_char_mod_256 mod_less_divisor zero_less_numeral)

lemma hex_byte_inj:
  assumes "hexdigit (of_char c div 16) = hexdigit (of_char d div 16)"
    and "hexdigit (of_char c mod 16) = hexdigit (of_char d mod 16)"
  shows "c = d"
proof -
  have c: "(of_char c :: nat) div 16 < 16"
    by (rule less_mult_imp_div_less) (use of_char_less [of c] in simp)
  have d: "(of_char d :: nat) div 16 < 16"
    by (rule less_mult_imp_div_less) (use of_char_less [of d] in simp)
  have q: "(of_char c :: nat) div 16 = of_char d div 16"
    by (rule hexdigit_inj [OF c d assms(1)])
  have r: "(of_char c :: nat) mod 16 = of_char d mod 16"
    by (rule hexdigit_inj [OF _ _ assms(2)]) simp_all
  have "(of_char c :: nat) = of_char d"
    using q r by (metis div_mult_mod_eq)
  then show ?thesis by simp
qed

lemma hex_inj: "hex xs = hex ys \<Longrightarrow> xs = ys"
proof (induction xs arbitrary: ys)
  case Nil
  then show ?case by (cases ys) simp_all
next
  case (Cons x xs)
  then show ?case by (cases ys) (auto dest: hex_byte_inj)
qed

lemma hexdigit_lower: "n < 16 \<Longrightarrow> hexdigit n \<in> set ''0123456789abcdef''"
  unfolding hexdigit_def by (rule nth_mem) simp

lemma hex_lower: "set (hex xs) \<subseteq> set ''0123456789abcdef''"
proof (induction xs)
  case Nil
  then show ?case by simp
next
  case (Cons c cs)
  have "(of_char c :: nat) div 16 < 16"
    by (rule less_mult_imp_div_less) (use of_char_less [of c] in simp)
  then have "hexdigit (of_char c div 16) \<in> set ''0123456789abcdef''" by (rule hexdigit_lower)
  moreover have "hexdigit (of_char c mod 16) \<in> set ''0123456789abcdef''"
    by (rule hexdigit_lower) simp
  ultimately show ?case using Cons by simp
qed

lemma digest_collision:
  assumes "\<And>b. length (h b) = n"
  shows "\<exists>b b'. b' \<noteq> b \<and> Verify (Some h) (Some (hex (h b'))) b = Inr ()"
proof -
  have "range h \<subseteq> {xs. set xs \<subseteq> (UNIV :: char set) \<and> length xs = n}"
    using assms by auto
  moreover have "finite {xs. set xs \<subseteq> (UNIV :: char set) \<and> length xs = n}"
    by (rule finite_lists_length_eq) simp
  ultimately have "finite (range h)" by (rule finite_subset)
  then have "\<not> inj h"
    using finite_imageD [of h UNIV] infinite_UNIV_listI by blast
  then obtain b b' where "b' \<noteq> b" and "h b' = h b"
    unfolding inj_def by metis
  then have "b' \<noteq> b \<and> Verify (Some h) (Some (hex (h b'))) b = Inr ()"
    by (simp add: Verify_def)
  then show ?thesis by blast
qed

section \<open>The claims about \<open>Translate\<close>\<close>

text \<open>
  Claim C4. For every source document passed to \<open>Translate\<close>, the run returns (from
  \<open>fuel_needed P\<close> on, for every amount of fuel) and the version field of the
  Ignition section of the returned destination document holds exactly the
  canonical version string \<^verbatim>\<open>types.MaxVersion\<close>, whatever the structural copy took
  from the version field of the source. The source document is a value of
  \<^verbatim>\<open>old_types.Config\<close> whose field \<open>f\<close> holds the \<^verbatim>\<open>old_types.Ignition\<close> section; the
  destination type declares \<open>f\<close>, and \<^verbatim>\<open>types.Ignition\<close> declares \<^verbatim>\<open>Version\<close>.
\<close>

theorem Translate_version:
  assumes old: "old = Struct ''old_types.Config'' fs"
    and ign: "map_of fs f = Some ign"
    and rt: "runtime_type ign = Some ''old_types.Ignition''"
    and decl: "f \<in> set (map fst (Config_fields P))"
    and ver: "''Version'' \<in> set (map fst (Ignition_fields P))"
    and fuel: "fuel_needed P \<le> n"
  shows "\<exists>ret k sec. Translate n P old = Some (ret, k) \<and>
           get_field f ret = Some sec \<and>
           get_field ''Version'' sec = Some (Scalar (MaxVersion P))"
proof -
  from Translate_returns [OF fuel] obtain ret k where run: "Translate n P old = Some (ret, k)"
    by fastforce
  from stamped_run [OF run old ign rt decl ver] run show ?thesis
    by blast
qed

theorem Translate_version_witness:
  "fuel_needed example_types \<le> 12 \<and>
   (\<exists>ret k sec. Translate 12 example_types example_old = Some (ret, k) \<and>
      get_field ''Ignition'' ret = Some sec \<and>
      get_field ''Version'' sec = Some (Scalar ''3.1.0-experimental''))"
proof -
  have old: "example_old = Struct ''old_types.Config''
       [(''Ignition'', example_Ignition),
        (''Storage'', Struct ''old_types.Storage'' [(''Files'', Seq [Scalar ''/etc/x''])])]"
    by (simp add: example_old_def)
  have ign: "map_of [(''Ignition'', example_Ignition),
        (''Storage'', Struct ''old_types.Storage'' [(''Files'', Seq [Scalar ''/etc/x''])])]
        ''Ignition'' = Some example_Ignition"
    by simp
  have rt: "runtime_type example_Ignition = Some ''old_types.Ignition''"
    by (simp add: example_Ignition_def)
  have decl: "''Ignition'' \<in> set (map fst (Config_fields example_types))"
    by (simp add: example_types_def)
  have ver: "''Version'' \<in> set (map fst (Ignition_fields example_types))"
    by (simp add: example_types_def)
  have fuel: "fuel_needed example_types \<le> 12"
    by code_simp
  have mv: "MaxVersion example_types = ''3.1.0-experimental''"
    by (simp add: example_types_def)
  from Translate_version [OF old ign rt decl ver fuel] fuel mv show ?thesis
    by simp
qed

text \<open>
  Claim C5. \<open>Translate\<close> terminates: from \<open>fuel_needed P\<close> on, every amount of fuel
  gives a result, for every source document. For a source document with its
  Ignition section the trace of the run holds exactly one invocation of the
  override \<open>translateIgnition\<close>, and it is the invocation on that section. The
  section of the result is what the override makes of it: the translation of the
  section by \<open>NewTranslator\<close>, the translator that holds no rule, with the version
  stamp written over it once. That nested translation returns with its trace as
  it was, whatever the trace and the fuel: the override is not invoked again
  inside it, since it does not run on the translator that holds the override.
  With the translators as objects, the run leaves behind exactly two new
  instances, whatever store it starts from: the one that holds the override, and
  one without rules, which the override made for the nested translation.
\<close>

theorem Translate_once:
  assumes fuel: "fuel_needed P \<le> n"
  shows "(\<exists>r. Translate n P old = Some r) \<and>
         (source_Config f old \<longrightarrow> f \<in> set (map fst (Config_fields P)) \<longrightarrow>
          distinct (map fst (Config_fields P)) \<longrightarrow>
            (\<exists>ret ign copy. get_field f old = Some ign \<and>
               Translate n P old = Some (ret, [(Fn_translateIgnition, ign)]) \<and>
               (\<forall>m k. height (types_Ignition P) \<le> m \<longrightarrow>
                  Translator_Translate m P NewTranslator (types_Ignition P) ign k =
                    Some (copy, k)) \<and>
               get_field f ret = Some (set_Version (MaxVersion P) copy) \<and>
               (\<forall>s. Translate_obj n P s old =
                  Some (ret, s @ [[Fn_translateIgnition], NewTranslator],
                        [(Fn_translateIgnition, ign)]))))"
proof -
  have "\<exists>ret ign copy. get_field f old = Some ign \<and>
      Translate n P old = Some (ret, [(Fn_translateIgnition, ign)]) \<and>
      (\<forall>m k. height (types_Ignition P) \<le> m \<longrightarrow>
         Translator_Translate m P NewTranslator (types_Ignition P) ign k = Some (copy, k)) \<and>
      get_field f ret = Some (set_Version (MaxVersion P) copy) \<and>
      (\<forall>s. Translate_obj n P s old =
         Some (ret, s @ [[Fn_translateIgnition], NewTranslator],
               [(Fn_translateIgnition, ign)]))"
    if src: "source_Config f old" and decl: "f \<in> set (map fst (Config_fields P))"
      and dist: "distinct (map fst (Config_fields P))"
  proof -
    from once_copy [OF src decl dist fuel] obtain ret ign copy where
      a: "get_field f old = Some ign"
      and b: "Translate n P old = Some (ret, [(Fn_translateIgnition, ign)])"
      and c: "\<forall>m k. height (types_Ignition P) \<le> m \<longrightarrow>
         Translator_Translate m P NewTranslator (types_Ignition P) ign k = Some (copy, k)"
      and d: "get_field f ret = Some (set_Version (MaxVersion P) copy)"
      by blast
    have "Translate_obj n P s old =
        Some (ret, s @ [[Fn_translateIgnition], NewTranslator], [(Fn_translateIgnition, ign)])"
      for s
      using Translate_obj_grows [where n = n and P = P and old = old and s = s] b by simp
    with a b c d show ?thesis by blast
  qed
  with Translate_returns [OF fuel] show ?thesis by blast
qed

theorem Translate_once_witness:
  "source_Config ''Ignition'' example_old \<and>
   fuel_needed example_types \<le> 12 \<and>
   get_field ''Ignition'' example_old = Some example_Ignition \<and>
   Translate 12 example_types example_old =
     Some (example_new, [(Fn_translateIgnition, example_Ignition)]) \<and>
   (\<exists>copy.
      Translator_Translate 4 example_types NewTranslator (types_Ignition example_types)
        example_Ignition [] = Some (copy, []) \<and>
      get_field ''Ignition'' example_new = Some (set_Version ''3.1.0-experimental'' copy)) \<and>
   Translate_obj 12 example_types [[]] example_old =
     Some (example_new, [[]] @ [[Fn_translateIgnition], NewTranslator],
           [(Fn_translateIgnition, example_Ignition)])"
proof -
  have src: "source_Config ''Ignition'' example_old"
    by code_simp
  have decl: "''Ignition'' \<in> set (map fst (Config_fields example_types))"
    by (simp add: example_types_def)
  have dist: "distinct (map fst (Config_fields example_types))"
    by (simp add: example_types_def)
  have fuel: "fuel_needed example_types \<le> 12"
    by code_simp
  have sec: "get_field ''Ignition'' example_old = Some example_Ignition"
    by (simp add: example_old_def)
  have run: "Translate 12 example_types example_old =
      Some (example_new, [(Fn_translateIgnition, example_Ignition)])"
    by code_simp
  have h: "height (types_Ignition example_types) \<le> 4"
    by code_simp
  have mv: "MaxVersion example_types = ''3.1.0-experimental''"
    by (simp add: example_types_def)
  from Translate_once [OF fuel, of example_old "''Ignition''"] src decl dist
  obtain ret ign copy where a: "get_field ''Ignition'' example_old = Some ign"
    and b: "Translate 12 example_types example_old = Some (ret, [(Fn_translateIgnition, ign)])"
    and c: "\<forall>m k. height (types_Ignition example_types) \<le> m \<longrightarrow>
        Translator_Translate m example_types NewTranslator (types_Ignition example_types) ign k =
          Some (copy, k)"
    and d: "get_field ''Ignition'' ret = Some (set_Version (MaxVersion example_types) copy)"
    and e: "\<forall>s. Translate_obj 12 example_types s example_old =
        Some (ret, s @ [[Fn_translateIgnition], NewTranslator], [(Fn_translateIgnition, ign)])"
    by blast
  from a sec have ign: "ign = example_Ignition" by simp
  from b run have ret: "ret = example_new" by simp
  from c h ign have "Translator_Translate 4 example_types NewTranslator
      (types_Ignition example_types) example_Ignition [] = Some (copy, [])"
    by blast
  moreover from e ret ign have "Translate_obj 12 example_types [[]] example_old =
      Some (example_new, [[]] @ [[Fn_translateIgnition], NewTranslator],
            [(Fn_translateIgnition, example_Ignition)])"
    by blast
  ultimately show ?thesis using d ret mv src fuel sec run
    by auto
qed

text \<open>
  Claim C10. \<open>Translate\<close> is deterministic: two invocations on equal source
  documents return equal destination documents (and equal traces), whatever
  translator instances the program holds when each of them starts and whatever
  fuel each of them has. An invocation reads nothing of the store it starts from:
  it allocates one new instance, registers the single override on it, and leaves
  behind the store as it was, that instance, and one instance without rules for
  every invocation of the override. With \<open>fuel_needed P\<close> or more fuel both invocations
  return, with the result of \<open>Translate\<close> on translator values.
\<close>

theorem Translate_deterministic:
  assumes eq: "old = old'"
  shows "(Translate_obj n P s old = Some (ret, s1, k) \<longrightarrow>
          Translate_obj m P s' old' = Some (ret', s1', k') \<longrightarrow>
            ret = ret' \<and> k = k' \<and>
            s1 = s @ [[Fn_translateIgnition]] @ replicate (length k) NewTranslator \<and>
            s1' = s' @ [[Fn_translateIgnition]] @ replicate (length k) NewTranslator) \<and>
         (fuel_needed P \<le> n \<longrightarrow> fuel_needed P \<le> m \<longrightarrow>
            (\<exists>r t. Translate n P old = Some (r, t) \<and>
               Translate_obj n P s old =
                 Some (r, s @ [[Fn_translateIgnition]] @ replicate (length t) NewTranslator, t) \<and>
               Translate_obj m P s' old' =
                 Some (r, s' @ [[Fn_translateIgnition]] @ replicate (length t) NewTranslator, t)))"
proof -
  have one: "Translate n P old = Some (r, t) \<and>
      s1 = s @ [[Fn_translateIgnition]] @ replicate (length t) NewTranslator"
    if "Translate_obj n P s old = Some (r, s1, t)" for n s r s1 t
    using Translate_obj_grows [where n = n and P = P and old = old and s = s] that
    by (auto split: option.splits)
  have both: "Translate_obj n P s old =
      Some (r, s @ [[Fn_translateIgnition]] @ replicate (length t) NewTranslator, t)"
    if "Translate n P old = Some (r, t)" for n s r t
    using Translate_obj_grows [where n = n and P = P and old = old and s = s] that by simp
  have first: "ret = ret' \<and> k = k' \<and>
      s1 = s @ [[Fn_translateIgnition]] @ replicate (length k) NewTranslator \<and>
      s1' = s' @ [[Fn_translateIgnition]] @ replicate (length k) NewTranslator"
    if a: "Translate_obj n P s old = Some (ret, s1, k)"
      and b: "Translate_obj m P s' old' = Some (ret', s1', k')"
  proof -
    from one [OF a] have pa: "Translate n P old = Some (ret, k)"
      and sa: "s1 = s @ [[Fn_translateIgnition]] @ replicate (length k) NewTranslator"
      by simp_all
    from one [OF b [folded eq]] have pb: "Translate m P old = Some (ret', k')"
      and sb: "s1' = s' @ [[Fn_translateIgnition]] @ replicate (length k') NewTranslator"
      by simp_all
    from same_run [OF pa pb refl] sa sb show ?thesis by simp
  qed
  have second: "\<exists>r t. Translate n P old = Some (r, t) \<and>
      Translate_obj n P s old =
        Some (r, s @ [[Fn_translateIgnition]] @ replicate (length t) NewTranslator, t) \<and>
      Translate_obj m P s' old' =
        Some (r, s' @ [[Fn_translateIgnition]] @ replicate (length t) NewTranslator, t)"
    if n: "fuel_needed P \<le> n" and m: "fuel_needed P \<le> m"
  proof -
    from Translate_returns [OF n] obtain r t where pa: "Translate n P old = Some (r, t)"
      by fastforce
    from Translate_returns [OF m] obtain r' t' where pb: "Translate m P old = Some (r', t')"
      by fastforce
    from same_run [OF pa pb refl] have "r' = r" and "t' = t" by simp_all
    with pb have pb': "Translate m P old = Some (r, t)" by simp
    from both [OF pa, of s] both [OF pb', of s'] pa show ?thesis
      unfolding eq [symmetric] by blast
  qed
  from first second show ?thesis by blast
qed

theorem Translate_deterministic_witness:
  "fuel_needed example_types \<le> 12 \<and> fuel_needed example_types \<le> 14 \<and>
   Translate_obj 12 example_types [] example_old =
     Some (example_new, [[Fn_translateIgnition], []],
           [(Fn_translateIgnition, example_Ignition)]) \<and>
   Translate_obj 14 example_types [[Fn_translateIgnition, Fn_translateIgnition], []]
       example_old =
     Some (example_new,
           [[Fn_translateIgnition, Fn_translateIgnition], [], [Fn_translateIgnition], []],
           [(Fn_translateIgnition, example_Ignition)])"
proof -
  have n: "fuel_needed example_types \<le> 12" and m: "fuel_needed example_types \<le> 14"
    by code_simp+
  have run: "Translate_obj 12 example_types [] example_old =
      Some (example_new, [[Fn_translateIgnition], []],
            [(Fn_translateIgnition, example_Ignition)])"
    by code_simp
  from Translate_deterministic [OF refl, where P = example_types and n = 12 and m = 14
      and old = example_old and s = "[]"
      and s' = "[[Fn_translateIgnition, Fn_translateIgnition], []]"] n m
  obtain r t where
    a: "Translate_obj 12 example_types [] example_old =
          Some (r, [] @ [[Fn_translateIgnition]] @ replicate (length t) NewTranslator, t)"
    and b: "Translate_obj 14 example_types [[Fn_translateIgnition, Fn_translateIgnition], []]
          example_old =
          Some (r, [[Fn_translateIgnition, Fn_translateIgnition], []] @
                  [[Fn_translateIgnition]] @ replicate (length t) NewTranslator, t)"
    by blast
  from a run have r: "r = example_new" and t: "t = [(Fn_translateIgnition, example_Ignition)]"
    by simp_all
  from b have "Translate_obj 14 example_types [[Fn_translateIgnition, Fn_translateIgnition], []]
       example_old =
     Some (example_new,
           [[Fn_translateIgnition, Fn_translateIgnition], [], [Fn_translateIgnition], []],
           [(Fn_translateIgnition, example_Ignition)])"
    unfolding r t by (simp add: NewTranslator_def)
  with n m run show ?thesis by blast
qed

section \<open>The claims about the fetch pipeline\<close>

text \<open>
  Claim C1, as amended. For every payload \<open>b\<close> and digest algorithm \<open>h\<close>, verifying
  \<open>b\<close> against the hex encoding of \<open>h b\<close> succeeds, and that encoding is lowercase
  hexadecimal. Verifying \<open>b\<close> against the hex digest of a payload \<open>b'\<close> whose digest
  differs from that of \<open>b\<close> fails with the hash-mismatch error whose
  \<^verbatim>\<open>Calculated\<close> is the hex encoding of \<open>h b\<close> and whose \<^verbatim>\<open>Expected\<close> is the supplied
  string. Against the hex digest of a payload with the same digest it succeeds,
  also when the payloads differ.
\<close>

theorem Verify_digest:
  "Verify (Some h) (Some (hex (h b))) b = Inr () \<and>
   set (hex (h b)) \<subseteq> set ''0123456789abcdef'' \<and>
   (h b' \<noteq> h b \<longrightarrow>
      Verify (Some h) (Some (hex (h b'))) b = Inl (ErrHashMismatch (hex (h b)) (hex (h b')))) \<and>
   (h b' = h b \<longrightarrow> Verify (Some h) (Some (hex (h b'))) b = Inr ())"
proof -
  have "hex (h b) \<noteq> hex (h b')" if "h b' \<noteq> h b"
    using that hex_inj [of "h b" "h b'"] by auto
  then show ?thesis
    using hex_lower [of "h b"] by (auto simp: Verify_def Let_def)
qed

theorem Verify_digest_witness:
  "adler32 ''abd'' \<noteq> adler32 ''abc'' \<and>
   Verify (Some adler32) (Some (hex (adler32 ''abd''))) ''abc'' =
     Inl (ErrHashMismatch ''024d0127'' ''024e0128'')"
proof -
  have ne: "adler32 ''abd'' \<noteq> adler32 ''abc''" by code_simp
  have c: "hex (adler32 ''abc'') = ''024d0127''" by code_simp
  have e: "hex (adler32 ''abd'') = ''024e0128''" by code_simp
  from Verify_digest [of adler32 "''abc''" "''abd''"] ne c e show ?thesis by simp
qed

text \<open>
  The claim as stated asks for a failure for every \<open>b'\<close> other than \<open>b\<close>. Two
  different payloads with the same Adler-32 sum verify against each other's
  digest; by \<open>digest_collision\<close> every digest of fixed size has such a pair.
\<close>

theorem Verify_collision:
  "[CHR 0x01, CHR 0x00, CHR 0x01] \<noteq> [CHR 0x00, CHR 0x02, CHR 0x00] \<and>
   Verify (Some adler32) (Some (hex (adler32 [CHR 0x01, CHR 0x00, CHR 0x01])))
     [CHR 0x00, CHR 0x02, CHR 0x00] = Inr ()"
  by code_simp

text \<open>
  Claim C9, as amended. With no compression and no digest in the options, the
  base64 payload delivers to the sink the bytes of the expected content followed
  by one newline; the percent-encoded payload delivers the expected content
  itself. The two agree once one trailing newline is trimmed from the sink, which
  is what the test does before it compares.
\<close>

theorem base64_payload_newline:
  "fetchFromDataURL gunzip
      \<lparr>Scheme = ''data'', Opaque = '';base64,IyBUaGlzIGZpbGUKClNFTElOVVg9cGVybWlzc2l2ZQo=''\<rparr>
      [] \<lparr>Hash = None, ExpectedSum = None, Compression = []\<rparr> =
     (None, expectedFileContent @ [CHR 0x0A]) \<and>
   fetchFromDataURL gunzip
      \<lparr>Scheme = ''data'', Opaque = '',%23%20This%20file%0A%0ASELINUX%3Dpermissive''\<rparr>
      [] \<lparr>Hash = None, ExpectedSum = None, Compression = []\<rparr> =
     (None, expectedFileContent) \<and>
   TrimSuffix (expectedFileContent @ [CHR 0x0A]) [CHR 0x0A] = expectedFileContent"
proof -
  have b: "dataurl_decode '';base64,IyBUaGlzIGZpbGUKClNFTElOVVg9cGVybWlzc2l2ZQo='' =
      Inr (expectedFileContent @ [CHR 0x0A])"
    by code_simp
  have p: "dataurl_decode '',%23%20This%20file%0A%0ASELINUX%3Dpermissive'' =
      Inr expectedFileContent"
    by code_simp
  have t: "TrimSuffix (expectedFileContent @ [CHR 0x0A]) [CHR 0x0A] = expectedFileContent"
    by (simp add: TrimSuffix_def)
  show ?thesis
    unfolding fetchFromDataURL_def Decompress_def Verify_def
    by (simp only: b p t URL.simps FetchOptions.simps sum.case option.case if_True prod.case
        option.map append_Nil simp_thms)
qed

text \<open>
  The claim as stated has the base64 payload decode to the expected content with
  no trailing newline.
\<close>

theorem base64_payload_differs:
  "dataurl_decode '';base64,IyBUaGlzIGZpbGUKClNFTElOVVg9cGVybWlzc2l2ZQo='' \<noteq>
     Inr expectedFileContent"
  by code_simp

end
